theory Spec2Isabelle
  imports Main "HOL-Library.Word" "HOL-Library.Multiset" "HOL-Library.Code_Target_Nat"
begin

section \<open>Atomic wrappers (mt-kahypar/parallel/atomic_wrapper.h)\<close>

text \<open>
  \<^verbatim>\<open>IntegralAtomicWrapper<T>\<close> holds one \<^verbatim>\<open>std::atomic<T>\<close> of an integral type. The
  wrapper has this one field, so it is the machine word itself (\<open>atomic_value\<close> reads
  the field, \<open>IntegralAtomicWrapper\<close> is the constructor); every operation is modelled in state-passing style and returns
  the pair (value returned to the caller, value stored afterwards).
\<close>

type_synonym 'a IntegralAtomicWrapper = "'a word"

definition atomic_value :: "('a::len) IntegralAtomicWrapper \<Rightarrow> 'a word" where
  "atomic_value a = a"

definition IntegralAtomicWrapper :: "('a::len) word \<Rightarrow> 'a IntegralAtomicWrapper" where
  "IntegralAtomicWrapper v = v"

definition iaw_load :: "('a::len) IntegralAtomicWrapper \<Rightarrow> 'a word" where
  "iaw_load a = atomic_value a"

definition iaw_fetch_add ::
  "('a::len) IntegralAtomicWrapper \<Rightarrow> 'a word \<Rightarrow> 'a word \<times> 'a IntegralAtomicWrapper" where
  "iaw_fetch_add a arg = (atomic_value a, IntegralAtomicWrapper (atomic_value a + arg))"

definition iaw_fetch_sub ::
  "('a::len) IntegralAtomicWrapper \<Rightarrow> 'a word \<Rightarrow> 'a word \<times> 'a IntegralAtomicWrapper" where
  "iaw_fetch_sub a arg = (atomic_value a, IntegralAtomicWrapper (atomic_value a - arg))"

text \<open>\<^verbatim>\<open>T operator++ () { return ++_value; }\<close>\<close>

definition iaw_pre_increment ::
  "('a::len) IntegralAtomicWrapper \<Rightarrow> 'a word \<times> 'a IntegralAtomicWrapper" where
  "iaw_pre_increment a = (atomic_value a + 1, IntegralAtomicWrapper (atomic_value a + 1))"

text \<open>\<^verbatim>\<open>T operator++ (int) { return _value++; }\<close>\<close>

definition iaw_post_increment ::
  "('a::len) IntegralAtomicWrapper \<Rightarrow> 'a word \<times> 'a IntegralAtomicWrapper" where
  "iaw_post_increment a = (atomic_value a, IntegralAtomicWrapper (atomic_value a + 1))"

text \<open>\<^verbatim>\<open>T operator-- () { return --_value; }\<close>\<close>

definition iaw_pre_decrement ::
  "('a::len) IntegralAtomicWrapper \<Rightarrow> 'a word \<times> 'a IntegralAtomicWrapper" where
  "iaw_pre_decrement a = (atomic_value a - 1, IntegralAtomicWrapper (atomic_value a - 1))"

text \<open>
  \<^verbatim>\<open>T operator-- (int) { return _value++; }\<close>: the body of the postfix decrement is the
  postfix increment of the underlying atomic, and it is modelled as written.
\<close>

definition iaw_post_decrement ::
  "('a::len) IntegralAtomicWrapper \<Rightarrow> 'a word \<times> 'a IntegralAtomicWrapper" where
  "iaw_post_decrement a = (atomic_value a, IntegralAtomicWrapper (atomic_value a + 1))"

section \<open>ConcurrentDataContainer (numa_work_queue.h)\<close>

text \<open>
  The container is an atomic \<^verbatim>\<open>size_t\<close> counter (a 64-bit word) over a vector allocated
  with \<^verbatim>\<open>maxNumElements\<close> slots. A vector access outside the allocated slots is undefined
  in the source (\<^verbatim>\<open>push_back\<close> asserts against it); the model returns \<open>None\<close> there.
\<close>

record 'a ConcurrentDataContainer =
  cdc_size :: "64 word"
  elements :: "'a list"

definition cdc_new :: "nat \<Rightarrow> 'a \<Rightarrow> 'a ConcurrentDataContainer" where
  "cdc_new maxNumElements dflt = \<lparr>cdc_size = 0, elements = replicate maxNumElements dflt\<rparr>"

definition push_back ::
  "'a ConcurrentDataContainer \<Rightarrow> 'a \<Rightarrow> 'a ConcurrentDataContainer option" where
  "push_back c el =
     (let old_size = cdc_size c;
          c1 = c\<lparr>cdc_size := old_size + 1\<rparr>
      in if unat old_size < length (elements c1)
         then Some (c1\<lparr>elements := (elements c1)[unat old_size := el]\<rparr>)
         else None)"

text \<open>
  \<^verbatim>\<open>try_pop(T& dest)\<close>: the result is (returned flag, \<^verbatim>\<open>dest\<close> afterwards, container
  afterwards). The counter is decremented by \<^verbatim>\<open>fetch_sub\<close> before the emptiness test.
\<close>

definition try_pop ::
  "'a ConcurrentDataContainer \<Rightarrow> 'a \<Rightarrow> (bool \<times> 'a \<times> 'a ConcurrentDataContainer) option" where
  "try_pop c dest =
     (let old_size = cdc_size c;
          c1 = c\<lparr>cdc_size := old_size - 1\<rparr>
      in if old_size > 0
         then (if unat (old_size - 1) < length (elements c1)
               then Some (True, elements c1 ! unat (old_size - 1), c1)
               else None)
         else Some (False, dest, c1))"

definition unsafe_size :: "'a ConcurrentDataContainer \<Rightarrow> 64 word" where
  "unsafe_size c = cdc_size c"

definition cdc_empty :: "'a ConcurrentDataContainer \<Rightarrow> bool" where
  "cdc_empty c = (unsafe_size c = 0)"

definition cdc_clear :: "'a ConcurrentDataContainer \<Rightarrow> 'a ConcurrentDataContainer" where
  "cdc_clear c = c\<lparr>cdc_size := 0\<rparr>"

section \<open>The hypergraph interface\<close>

text \<open>
  Node, edge and block identifiers are natural numbers. \<^verbatim>\<open>kInvalidPartition\<close> is the
  value \<open>None\<close> of \<open>PartitionID option\<close>. The hypergraph class itself is external to
  the partitioned hypergraph, which only calls the accessors below; it is a record of
  exactly those accessors.

  \<^verbatim>\<open>HypernodeWeight\<close>, \<^verbatim>\<open>HyperedgeWeight\<close> and \<^verbatim>\<open>Gain\<close> are the 32-bit signed integers
  of mt-kahypar. A weight is an integer; every addition and subtraction that the source
  carries out on weights is followed by \<open>wrap_int32\<close>, the reduction of the result to
  the two's complement range \<open>-2^31 .. 2^31 - 1\<close>, and \<open>fits_int32\<close> says that a value lies
  in that range.
\<close>

type_synonym HypernodeID = nat
type_synonym HyperedgeID = nat
type_synonym PartitionID = nat
type_synonym HypernodeWeight = int
type_synonym HyperedgeWeight = int
type_synonym Gain = int

definition wrap_int32 :: "int \<Rightarrow> int" where
  "wrap_int32 x = (x + 2147483648) mod 4294967296 - 2147483648"

definition fits_int32 :: "int \<Rightarrow> bool" where
  "fits_int32 x \<longleftrightarrow> - 2147483648 \<le> x \<and> x \<le> 2147483647"

text \<open>The sum of a list of weights, accumulated from 0 in a 32-bit variable.\<close>

definition sum_int32 :: "int list \<Rightarrow> int" where
  "sum_int32 xs = fold (\<lambda>x acc. wrap_int32 (acc + x)) xs 0"

record Hypergraph =
  initialNumNodes :: nat
  initialNumEdges :: nat
  nodeWeight :: "HypernodeID \<Rightarrow> HypernodeWeight"
  edgeWeight :: "HyperedgeID \<Rightarrow> HyperedgeWeight"
  pins :: "HyperedgeID \<Rightarrow> HypernodeID list"
  incidentEdges :: "HypernodeID \<Rightarrow> HyperedgeID list"
  nodeIsEnabled :: "HypernodeID \<Rightarrow> bool"
  edgeIsEnabled :: "HyperedgeID \<Rightarrow> bool"

definition edgeSize :: "Hypergraph \<Rightarrow> HyperedgeID \<Rightarrow> nat" where
  "edgeSize h e = length (pins h e)"

definition nodeDegree :: "Hypergraph \<Rightarrow> HypernodeID \<Rightarrow> nat" where
  "nodeDegree h u = length (incidentEdges h u)"

definition nodes :: "Hypergraph \<Rightarrow> HypernodeID list" where
  "nodes h = filter (nodeIsEnabled h) [0..<initialNumNodes h]"


section \<open>Pin counts and connectivity sets\<close>

text \<open>
  Modelled from the spec: \<^verbatim>\<open>pin_count_in_part.h\<close> is not among the sources. Section 4.1:
  dense storage indexed by (edge, block) with \<open>get\<close>, \<open>set\<close>, \<open>inc \<rightarrow> new\<close> and
  \<open>dec \<rightarrow> new\<close>; the entries are small non-negative integers.
\<close>

type_synonym PinCountInPart = "HyperedgeID \<Rightarrow> PartitionID \<Rightarrow> nat"

definition pcip_pinCountInPart :: "PinCountInPart \<Rightarrow> HyperedgeID \<Rightarrow> PartitionID \<Rightarrow> nat" where
  "pcip_pinCountInPart t e p = t e p"

definition setPinCountInPart ::
  "PinCountInPart \<Rightarrow> HyperedgeID \<Rightarrow> PartitionID \<Rightarrow> nat \<Rightarrow> PinCountInPart" where
  "setPinCountInPart t e p n = t(e := (t e)(p := n))"

definition incrementPinCountInPart ::
  "PinCountInPart \<Rightarrow> HyperedgeID \<Rightarrow> PartitionID \<Rightarrow> nat \<times> PinCountInPart" where
  "incrementPinCountInPart t e p = (t e p + 1, setPinCountInPart t e p (t e p + 1))"

definition decrementPinCountInPart ::
  "PinCountInPart \<Rightarrow> HyperedgeID \<Rightarrow> PartitionID \<Rightarrow> nat \<times> PinCountInPart" where
  "decrementPinCountInPart t e p = (t e p - 1, setPinCountInPart t e p (t e p - 1))"

text \<open>
  Modelled from the spec: \<^verbatim>\<open>connectivity_set.h\<close> is not among the sources. Section 4.2:
  per edge a set of blocks with \<open>add\<close>, \<open>remove\<close>, \<open>contains\<close>, \<open>count\<close> and iteration
  in ascending block order.
\<close>

type_synonym ConnectivitySets = "HyperedgeID \<Rightarrow> PartitionID set"

definition cs_add :: "ConnectivitySets \<Rightarrow> HyperedgeID \<Rightarrow> PartitionID \<Rightarrow> ConnectivitySets" where
  "cs_add c e p = c(e := insert p (c e))"

definition cs_remove :: "ConnectivitySets \<Rightarrow> HyperedgeID \<Rightarrow> PartitionID \<Rightarrow> ConnectivitySets" where
  "cs_remove c e p = c(e := c e - {p})"

definition cs_clear :: "ConnectivitySets \<Rightarrow> HyperedgeID \<Rightarrow> ConnectivitySets" where
  "cs_clear c e = c(e := {})"

definition cs_contains :: "ConnectivitySets \<Rightarrow> HyperedgeID \<Rightarrow> PartitionID \<Rightarrow> bool" where
  "cs_contains c e p = (p \<in> c e)"

definition cs_connectivity :: "ConnectivitySets \<Rightarrow> HyperedgeID \<Rightarrow> nat" where
  "cs_connectivity c e = card (c e)"

definition cs_connectivitySet :: "ConnectivitySets \<Rightarrow> HyperedgeID \<Rightarrow> PartitionID list" where
  "cs_connectivitySet c e = sorted_list_of_set (c e)"

section \<open>PartitionedHypergraph (mt-kahypar/datastructures/partitioned_hypergraph.h)\<close>

text \<open>
  The fields of the class, with the source's names less the leading underscore. Arrays
  are total maps from their index; the source's ASSERTs keep every index the code uses
  inside the allocated range. \<open>part_weights\<close>, \<open>move_to_penalty\<close> and
  \<open>move_from_benefit\<close> hold \<^verbatim>\<open>CAtomic\<close> integers: \<^verbatim>\<open>fetch_add\<close> and \<^verbatim>\<open>fetch_sub\<close> return
  the value held before the update, \<^verbatim>\<open>add_fetch\<close> and \<^verbatim>\<open>sub_fetch\<close> the value after it.
\<close>

record PartitionedHypergraph =
  is_gain_cache_initialized :: bool
  k_blocks :: nat
  hg :: Hypergraph
  part_weights :: "PartitionID \<Rightarrow> HypernodeWeight"
  part_ids :: "HypernodeID \<Rightarrow> PartitionID option"
  pins_in_part :: PinCountInPart
  connectivity_set :: ConnectivitySets
  move_to_penalty :: "nat \<Rightarrow> HyperedgeWeight"
  move_from_benefit :: "HypernodeID \<Rightarrow> HyperedgeWeight"
  pin_count_update_ownership :: "HyperedgeID \<Rightarrow> bool"

definition HIGH_DEGREE_THRESHOLD :: nat where
  "HIGH_DEGREE_THRESHOLD = 100000"

text \<open>The constructor: every node unassigned, every table zero.\<close>

definition new_PartitionedHypergraph :: "nat \<Rightarrow> Hypergraph \<Rightarrow> PartitionedHypergraph" where
  "new_PartitionedHypergraph k h =
     \<lparr>is_gain_cache_initialized = False, k_blocks = k, hg = h,
      part_weights = (\<lambda>_. 0), part_ids = (\<lambda>_. None),
      pins_in_part = (\<lambda>_ _. 0), connectivity_set = (\<lambda>_. {}),
      move_to_penalty = (\<lambda>_. 0), move_from_benefit = (\<lambda>_. 0),
      pin_count_update_ownership = (\<lambda>_. False)\<rparr>"

subsection \<open>Read accessors\<close>

definition partID :: "PartitionedHypergraph \<Rightarrow> HypernodeID \<Rightarrow> PartitionID option" where
  "partID phg u = part_ids phg u"

definition partWeight :: "PartitionedHypergraph \<Rightarrow> PartitionID \<Rightarrow> HypernodeWeight" where
  "partWeight phg p = part_weights phg p"

definition connectivity :: "PartitionedHypergraph \<Rightarrow> HyperedgeID \<Rightarrow> nat" where
  "connectivity phg e = cs_connectivity (connectivity_set phg) e"

definition connectivitySet :: "PartitionedHypergraph \<Rightarrow> HyperedgeID \<Rightarrow> PartitionID list" where
  "connectivitySet phg e = cs_connectivitySet (connectivity_set phg) e"

definition pinCountInPart :: "PartitionedHypergraph \<Rightarrow> HyperedgeID \<Rightarrow> PartitionID \<Rightarrow> nat" where
  "pinCountInPart phg e p = pcip_pinCountInPart (pins_in_part phg) e p"

definition penalty_index :: "PartitionedHypergraph \<Rightarrow> HypernodeID \<Rightarrow> PartitionID \<Rightarrow> nat" where
  "penalty_index phg u p = u * k_blocks phg + p"

definition moveFromBenefit :: "PartitionedHypergraph \<Rightarrow> HypernodeID \<Rightarrow> HyperedgeWeight" where
  "moveFromBenefit phg u = move_from_benefit phg u"

definition moveToPenalty ::
  "PartitionedHypergraph \<Rightarrow> HypernodeID \<Rightarrow> PartitionID \<Rightarrow> HyperedgeWeight" where
  "moveToPenalty phg u p = move_to_penalty phg (penalty_index phg u p)"


text \<open>
  \<^verbatim>\<open>isBorderNode\<close>: the loop returns at the first incident edge of connectivity above
  one; nodes of degree above the threshold are answered \<^verbatim>\<open>false\<close> without a look.
\<close>

definition isBorderNode :: "PartitionedHypergraph \<Rightarrow> HypernodeID \<Rightarrow> bool" where
  "isBorderNode phg u =
     (if nodeDegree (hg phg) u \<le> HIGH_DEGREE_THRESHOLD
      then list_ex (\<lambda>he. connectivity phg he > 1) (incidentEdges (hg phg) u)
      else False)"

text \<open>
  The recomputations the source keeps for its own consistency check. The source reads
  \<^verbatim>\<open>pinCountInPart(e, partID(u))\<close> and so presupposes an assigned node; for an unassigned
  one the model's sum is empty.
\<close>

definition pinCountInPartRecomputed ::
  "PartitionedHypergraph \<Rightarrow> HyperedgeID \<Rightarrow> PartitionID \<Rightarrow> nat" where
  "pinCountInPartRecomputed phg e p =
     length (filter (\<lambda>u. partID phg u = Some p) (pins (hg phg) e))"

definition moveFromBenefitRecomputed :: "PartitionedHypergraph \<Rightarrow> HypernodeID \<Rightarrow> HyperedgeWeight" where
  "moveFromBenefitRecomputed phg u =
     (case partID phg u of
        None \<Rightarrow> 0
      | Some p \<Rightarrow> sum_list (map (edgeWeight (hg phg))
                    (filter (\<lambda>e. pinCountInPart phg e p = 1) (incidentEdges (hg phg) u))))"

definition moveToPenaltyRecomputed ::
  "PartitionedHypergraph \<Rightarrow> HypernodeID \<Rightarrow> PartitionID \<Rightarrow> HyperedgeWeight" where
  "moveToPenaltyRecomputed phg u p =
     sum_list (map (edgeWeight (hg phg))
       (filter (\<lambda>e. pinCountInPart phg e p = 0) (incidentEdges (hg phg) u)))"

subsection \<open>Assigning nodes\<close>

definition setOnlyNodePart ::
  "PartitionedHypergraph \<Rightarrow> HypernodeID \<Rightarrow> PartitionID \<Rightarrow> PartitionedHypergraph" where
  "setOnlyNodePart phg u p = phg\<lparr>part_ids := (part_ids phg)(u := Some p)\<rparr>"

definition incrementPinCountInPartWithoutGainUpdate ::
  "PartitionedHypergraph \<Rightarrow> HyperedgeID \<Rightarrow> PartitionID \<Rightarrow> nat \<times> PartitionedHypergraph" where
  "incrementPinCountInPartWithoutGainUpdate phg e p =
     (let (pin_count_after, t) = incrementPinCountInPart (pins_in_part phg) e p;
          phg1 = phg\<lparr>pins_in_part := t\<rparr>
      in if pin_count_after = 1
         then (pin_count_after, phg1\<lparr>connectivity_set := cs_add (connectivity_set phg1) e p\<rparr>)
         else (pin_count_after, phg1))"

definition decrementPinCountInPartWithoutGainUpdate ::
  "PartitionedHypergraph \<Rightarrow> HyperedgeID \<Rightarrow> PartitionID \<Rightarrow> nat \<times> PartitionedHypergraph" where
  "decrementPinCountInPartWithoutGainUpdate phg e p =
     (let (pin_count_after, t) = decrementPinCountInPart (pins_in_part phg) e p;
          phg1 = phg\<lparr>pins_in_part := t\<rparr>
      in if pin_count_after = 0
         then (pin_count_after, phg1\<lparr>connectivity_set := cs_remove (connectivity_set phg1) e p\<rparr>)
         else (pin_count_after, phg1))"

definition setNodePart ::
  "PartitionedHypergraph \<Rightarrow> HypernodeID \<Rightarrow> PartitionID \<Rightarrow> PartitionedHypergraph" where
  "setNodePart phg u p =
     (let phg1 = setOnlyNodePart phg u p;
          phg2 = phg1\<lparr>part_weights :=
                   (part_weights phg1)
                     (p := wrap_int32 (part_weights phg1 p + nodeWeight (hg phg1) u))\<rparr>
      in fold (\<lambda>he s. snd (incrementPinCountInPartWithoutGainUpdate s he p))
           (incidentEdges (hg phg2) u) phg2)"

subsection \<open>Bulk initialisation of block weights and pin counts\<close>

text \<open>
  \<^verbatim>\<open>initializeBlockWeights\<close> and \<^verbatim>\<open>initializePinCountInPart\<close> are parallel loops whose
  iterations write thread-local vectors and then add to (or set) entries of their own;
  they are modelled by their sequential run over the whole index range. Both index a
  vector with \<^verbatim>\<open>partID\<close> of the node, which must therefore be assigned; an unassigned
  node contributes nothing in the model.
\<close>

definition accumulate_block_weights ::
  "PartitionedHypergraph \<Rightarrow> HypernodeID list \<Rightarrow> (PartitionID \<Rightarrow> HypernodeWeight)
     \<Rightarrow> (PartitionID \<Rightarrow> HypernodeWeight)" where
  "accumulate_block_weights phg us pws0 =
     fold (\<lambda>u pws.
             if nodeIsEnabled (hg phg) u
             then (case partID phg u of
                     Some pu \<Rightarrow> pws(pu := wrap_int32 (pws pu + nodeWeight (hg phg) u))
                   | None \<Rightarrow> pws)
             else pws) us pws0"

definition applyPartWeightUpdates ::
  "PartitionedHypergraph \<Rightarrow> (PartitionID \<Rightarrow> HypernodeWeight) \<Rightarrow> PartitionedHypergraph" where
  "applyPartWeightUpdates phg part_weight_deltas =
     fold (\<lambda>p s. s\<lparr>part_weights :=
                      (part_weights s)(p := wrap_int32 (part_weights s p + part_weight_deltas p))\<rparr>)
       [0..<k_blocks phg] phg"

definition initializeBlockWeights :: "PartitionedHypergraph \<Rightarrow> PartitionedHypergraph" where
  "initializeBlockWeights phg =
     applyPartWeightUpdates phg
       (accumulate_block_weights phg [0..<initialNumNodes (hg phg)] (\<lambda>_. 0))"

definition count_pins_of_edge ::
  "PartitionedHypergraph \<Rightarrow> HyperedgeID \<Rightarrow> (PartitionID \<Rightarrow> nat) \<Rightarrow> (PartitionID \<Rightarrow> nat)" where
  "count_pins_of_edge phg he pin_counts0 =
     fold (\<lambda>pin pin_counts.
             case partID phg pin of
               Some b \<Rightarrow> pin_counts(b := pin_counts b + 1)
             | None \<Rightarrow> pin_counts) (pins (hg phg) he) pin_counts0"

definition assign_pin_counts_of_edge ::
  "HyperedgeID \<Rightarrow> PartitionedHypergraph \<times> (PartitionID \<Rightarrow> nat)
     \<Rightarrow> PartitionedHypergraph \<times> (PartitionID \<Rightarrow> nat)" where
  "assign_pin_counts_of_edge he st =
     fold (\<lambda>p (s, pin_counts).
             ((if pin_counts p > 0
               then s\<lparr>connectivity_set := cs_add (connectivity_set s) he p,
                      pins_in_part := setPinCountInPart (pins_in_part s) he p (pin_counts p)\<rparr>
               else s),
              pin_counts(p := 0)))
       [0..<k_blocks (fst st)] st"

definition initializePinCountInPart :: "PartitionedHypergraph \<Rightarrow> PartitionedHypergraph" where
  "initializePinCountInPart phg =
     fst (fold (\<lambda>he (s, pin_counts).
                  if edgeIsEnabled (hg s) he
                  then assign_pin_counts_of_edge he (s, count_pins_of_edge s he pin_counts)
                  else (s, pin_counts))
            [0..<initialNumEdges (hg phg)] (phg, (\<lambda>_. 0)))"

definition initializePartition :: "PartitionedHypergraph \<Rightarrow> PartitionedHypergraph" where
  "initializePartition phg = initializePinCountInPart (initializeBlockWeights phg)"

subsection \<open>The gain cache delta update\<close>

text \<open>
  \<^verbatim>\<open>gainCacheUpdate\<close>, branch by branch. The first loop stops at the first pin found in
  \<open>from\<close> (\<^verbatim>\<open>break\<close>); the last loop has no \<^verbatim>\<open>break\<close> and visits every pin.
\<close>

fun add_benefit_of_first_pin_in ::
  "PartitionID \<Rightarrow> HyperedgeWeight \<Rightarrow> HypernodeID list \<Rightarrow> PartitionedHypergraph
     \<Rightarrow> PartitionedHypergraph" where
  "add_benefit_of_first_pin_in from we [] phg = phg"
| "add_benefit_of_first_pin_in from we (u # us) phg =
     (if partID phg u = Some from
      then phg\<lparr>move_from_benefit :=
                 (move_from_benefit phg)(u := wrap_int32 (move_from_benefit phg u + we))\<rparr>
      else add_benefit_of_first_pin_in from we us phg)"

definition add_penalty_of_all_pins ::
  "PartitionID \<Rightarrow> HyperedgeWeight \<Rightarrow> HypernodeID list \<Rightarrow> PartitionedHypergraph
     \<Rightarrow> PartitionedHypergraph" where
  "add_penalty_of_all_pins p we us phg =
     fold (\<lambda>u s. s\<lparr>move_to_penalty := (move_to_penalty s)
                      (penalty_index s u p :=
                         wrap_int32 (move_to_penalty s (penalty_index s u p) + we))\<rparr>)
       us phg"

definition sub_benefit_of_pins_in ::
  "PartitionID \<Rightarrow> HyperedgeWeight \<Rightarrow> HypernodeID list \<Rightarrow> PartitionedHypergraph
     \<Rightarrow> PartitionedHypergraph" where
  "sub_benefit_of_pins_in to we us phg =
     fold (\<lambda>u s. if partID s u = Some to
                  then s\<lparr>move_from_benefit :=
                         (move_from_benefit s)(u := wrap_int32 (move_from_benefit s u - we))\<rparr>
                  else s)
       us phg"

definition gainCacheUpdate ::
  "HyperedgeID \<Rightarrow> HyperedgeWeight \<Rightarrow> PartitionID \<Rightarrow> nat \<Rightarrow> PartitionID \<Rightarrow> nat
     \<Rightarrow> PartitionedHypergraph \<Rightarrow> PartitionedHypergraph" where
  "gainCacheUpdate he we from pin_count_in_from_part_after to pin_count_in_to_part_after phg =
     (let phg1 =
            (if pin_count_in_from_part_after = 1
             then add_benefit_of_first_pin_in from we (pins (hg phg) he) phg
             else if pin_count_in_from_part_after = 0
             then add_penalty_of_all_pins from we (pins (hg phg) he) phg
             else phg)
      in if pin_count_in_to_part_after = 1
         then add_penalty_of_all_pins to (- we) (pins (hg phg1) he) phg1
         else if pin_count_in_to_part_after = 2
         then sub_benefit_of_pins_in to we (pins (hg phg1) he) phg1
         else phg1)"

subsection \<open>The move primitive\<close>

type_synonym DeltaFunction =
  "HyperedgeID \<Rightarrow> HyperedgeWeight \<Rightarrow> nat \<Rightarrow> nat \<Rightarrow> nat
     \<Rightarrow> PartitionedHypergraph \<Rightarrow> PartitionedHypergraph"

definition NOOP_FUNC :: DeltaFunction where
  "NOOP_FUNC he we sz pin_count_in_from_part_after pin_count_in_to_part_after phg = phg"

text \<open>
  \<^verbatim>\<open>updatePinCountOfHyperedgeWithoutGainUpdates\<close>: the compare-and-swap takes the edge's
  ownership flag only when it is clear; the flag is cleared again after the callback.
\<close>

definition updatePinCountOfHyperedgeWithoutGainUpdates ::
  "HyperedgeID \<Rightarrow> PartitionID \<Rightarrow> PartitionID \<Rightarrow> DeltaFunction \<Rightarrow> PartitionedHypergraph
     \<Rightarrow> bool \<times> PartitionedHypergraph" where
  "updatePinCountOfHyperedgeWithoutGainUpdates he from to delta_func phg =
     (if \<not> pin_count_update_ownership phg he
      then (let phg1 = phg\<lparr>pin_count_update_ownership :=
                             (pin_count_update_ownership phg)(he := True)\<rparr>;
                (pin_count_in_from_part_after, phg2) =
                   decrementPinCountInPartWithoutGainUpdate phg1 he from;
                (pin_count_in_to_part_after, phg3) =
                   incrementPinCountInPartWithoutGainUpdate phg2 he to;
                phg4 = delta_func he (edgeWeight (hg phg3) he) (edgeSize (hg phg3) he)
                         pin_count_in_from_part_after pin_count_in_to_part_after phg3
            in (True, phg4\<lparr>pin_count_update_ownership :=
                             (pin_count_update_ownership phg4)(he := False)\<rparr>))
      else (False, phg))"

text \<open>
  \<^verbatim>\<open>while ( !updatePinCountOfHyperedgeWithoutGainUpdates(he, from, to, delta_func) );\<close>
  spins until the flag is taken. With no other thread to clear a held flag the loop does
  not return, which is the value \<open>None\<close>.
\<close>

partial_function (option) spin_updatePinCountOfHyperedge ::
  "HyperedgeID \<Rightarrow> PartitionID \<Rightarrow> PartitionID \<Rightarrow> DeltaFunction \<Rightarrow> PartitionedHypergraph
     \<Rightarrow> PartitionedHypergraph option" where
  "spin_updatePinCountOfHyperedge he from to delta_func phg =
     (let (acquired, phg1) = updatePinCountOfHyperedgeWithoutGainUpdates he from to delta_func phg
      in if acquired then Some phg1
         else spin_updatePinCountOfHyperedge he from to delta_func phg1)"

fun update_incident_edges ::
  "HyperedgeID list \<Rightarrow> PartitionID \<Rightarrow> PartitionID \<Rightarrow> DeltaFunction \<Rightarrow> PartitionedHypergraph
     \<Rightarrow> PartitionedHypergraph option" where
  "update_incident_edges [] from to delta_func phg = Some phg"
| "update_incident_edges (he # hes) from to delta_func phg =
     (case spin_updatePinCountOfHyperedge he from to delta_func phg of
        None \<Rightarrow> None
      | Some phg1 \<Rightarrow> update_incident_edges hes from to delta_func phg1)"

declare spin_updatePinCountOfHyperedge.simps [code]

text \<open>
  \<^verbatim>\<open>changeNodePart\<close>. \<^verbatim>\<open>to_weight_after\<close> is the result of \<^verbatim>\<open>add_fetch\<close> (the weight of
  \<open>to\<close> after the addition); \<^verbatim>\<open>from_weight_after\<close> is the result of \<^verbatim>\<open>fetch_sub\<close> (the
  weight of \<open>from\<close> read before the subtraction is applied). The result is \<open>None\<close> when
  a spin on an edge does not return, otherwise the returned flag and the state.
\<close>

definition changeNodePart ::
  "HypernodeID \<Rightarrow> PartitionID \<Rightarrow> PartitionID \<Rightarrow> HypernodeWeight
     \<Rightarrow> (PartitionedHypergraph \<Rightarrow> PartitionedHypergraph) \<Rightarrow> DeltaFunction
     \<Rightarrow> PartitionedHypergraph \<Rightarrow> (bool \<times> PartitionedHypergraph) option" where
  "changeNodePart u from to max_weight_to report_success delta_func phg =
     (let wu = nodeWeight (hg phg) u;
          to_weight_after = wrap_int32 (part_weights phg to + wu);
          phg1 = phg\<lparr>part_weights := (part_weights phg)(to := to_weight_after)\<rparr>;
          from_weight_after = part_weights phg1 from;
          phg2 = phg1\<lparr>part_weights :=
                   (part_weights phg1)(from := wrap_int32 (part_weights phg1 from - wu))\<rparr>
      in if to_weight_after \<le> max_weight_to \<and> from_weight_after > 0
         then (let phg3 = phg2\<lparr>part_ids := (part_ids phg2)(u := Some to)\<rparr>;
                   phg4 = report_success phg3
               in map_option (Pair True)
                    (update_incident_edges (incidentEdges (hg phg4) u) from to delta_func phg4))
         else (let phg3 = phg2\<lparr>part_weights :=
                            (part_weights phg2)(to := wrap_int32 (part_weights phg2 to - wu))\<rparr>;
                   phg4 = phg3\<lparr>part_weights :=
                            (part_weights phg3)(from := wrap_int32 (part_weights phg3 from + wu))\<rparr>
               in Some (False, phg4)))"

text \<open>
  \<^verbatim>\<open>changeNodePartFullUpdate\<close> wraps the caller's callback so that the gain cache is
  updated inside the same critical section.
\<close>

definition changeNodePartFullUpdate ::
  "HypernodeID \<Rightarrow> PartitionID \<Rightarrow> PartitionID \<Rightarrow> HypernodeWeight
     \<Rightarrow> (PartitionedHypergraph \<Rightarrow> PartitionedHypergraph) \<Rightarrow> DeltaFunction
     \<Rightarrow> PartitionedHypergraph \<Rightarrow> (bool \<times> PartitionedHypergraph) option" where
  "changeNodePartFullUpdate u from to max_weight_to report_success delta_func phg =
     changeNodePart u from to max_weight_to report_success
       (\<lambda>he edge_weight edge_size pin_count_in_from_part_after pin_count_in_to_part_after s.
          gainCacheUpdate he edge_weight from pin_count_in_from_part_after to
            pin_count_in_to_part_after
            (delta_func he edge_weight edge_size pin_count_in_from_part_after
               pin_count_in_to_part_after s))
       phg"

subsection \<open>Initialising the gain cache\<close>

text \<open>
  \<^verbatim>\<open>aggregate_contribution_of_he_for_vertex\<close>, the lambda shared by both stages of
  \<^verbatim>\<open>initializeGainInformation\<close>. Its three reference parameters are the triple
  (\<open>l_move_from_benefit\<close>, \<open>incident_edges_weight\<close>, \<open>l_move_to_penalty\<close>).
  \<open>block_of_u\<close> is \<^verbatim>\<open>partID(u)\<close>; the source presupposes an assigned node, and for an
  unassigned one the model adds no benefit.
\<close>

definition aggregate_contribution_of_he_for_vertex ::
  "PartitionedHypergraph \<Rightarrow> PartitionID option \<Rightarrow> HyperedgeID
     \<Rightarrow> HyperedgeWeight \<times> HyperedgeWeight \<times> (PartitionID \<Rightarrow> HyperedgeWeight)
     \<Rightarrow> HyperedgeWeight \<times> HyperedgeWeight \<times> (PartitionID \<Rightarrow> HyperedgeWeight)" where
  "aggregate_contribution_of_he_for_vertex phg block_of_u he acc =
     (case acc of (l_move_from_benefit, incident_edges_weight, l_move_to_penalty) \<Rightarrow>
        (let edge_weight = edgeWeight (hg phg) he
         in ((if (case block_of_u of Some b \<Rightarrow> pinCountInPart phg he b = 1 | None \<Rightarrow> False)
              then wrap_int32 (l_move_from_benefit + edge_weight) else l_move_from_benefit),
             wrap_int32 (incident_edges_weight + edge_weight),
             fold (\<lambda>block l. l(block := wrap_int32 (l block - edge_weight)))
               (connectivitySet phg he) l_move_to_penalty)))"

text \<open>
  Stage 1, one node of degree at most the threshold: the incident edges are aggregated
  in order into the running thread's vector, the results are stored and the vector is
  zeroed again on the blocks \<open>0..k-1\<close>.
\<close>

definition store_penalties_low ::
  "HypernodeID \<Rightarrow> HyperedgeWeight
     \<Rightarrow> PartitionedHypergraph \<times> (PartitionID \<Rightarrow> HyperedgeWeight)
     \<Rightarrow> PartitionedHypergraph \<times> (PartitionID \<Rightarrow> HyperedgeWeight)" where
  "store_penalties_low u incident_edges_weight st =
     fold (\<lambda>p (s, l_move_to_penalty).
             (s\<lparr>move_to_penalty := (move_to_penalty s)
                   (penalty_index s u p :=
                      wrap_int32 (l_move_to_penalty p + incident_edges_weight))\<rparr>,
              l_move_to_penalty(p := 0)))
       [0..<k_blocks (fst st)] st"

definition gain_of_low_degree_vertex ::
  "PartitionedHypergraph \<Rightarrow> HypernodeID \<Rightarrow> (PartitionID \<Rightarrow> HyperedgeWeight)
     \<Rightarrow> PartitionedHypergraph \<times> (PartitionID \<Rightarrow> HyperedgeWeight)" where
  "gain_of_low_degree_vertex phg u l_move_to_penalty0 =
     (case fold (aggregate_contribution_of_he_for_vertex phg (partID phg u))
             (incidentEdges (hg phg) u) (0, 0, l_move_to_penalty0) of
        (l_move_from_benefit, incident_edges_weight, l_move_to_penalty) \<Rightarrow>
          store_penalties_low u incident_edges_weight
            (phg\<lparr>move_from_benefit := (move_from_benefit phg)(u := l_move_from_benefit)\<rparr>,
             l_move_to_penalty))"

text \<open>
  Stage 2, one node of degree above the threshold: a parallel reduction. \<open>work\<close> lists,
  per thread, the incident edges that the thread's ranges cover, in the order the thread
  visits them; \<open>ets_mtp\<close> holds the threads' penalty vectors. Every thread aggregates
  into its own benefit, weight and vector; the per-thread values are then added up
  (\<^verbatim>\<open>combine(std::plus)\<close>, and the loop over \<^verbatim>\<open>ets_mtp\<close>, which also zeroes the vectors).
\<close>

definition store_penalties_high ::
  "HypernodeID \<Rightarrow> HyperedgeWeight
     \<Rightarrow> PartitionedHypergraph \<times> (PartitionID \<Rightarrow> HyperedgeWeight) list
     \<Rightarrow> PartitionedHypergraph \<times> (PartitionID \<Rightarrow> HyperedgeWeight) list" where
  "store_penalties_high u incident_edges_weight st =
     fold (\<lambda>p (s, ets_mtp).
             (s\<lparr>move_to_penalty := (move_to_penalty s)
                   (penalty_index s u p :=
                      wrap_int32
                        (sum_int32 (map (\<lambda>l_move_to_penalty. l_move_to_penalty p) ets_mtp)
                           + incident_edges_weight))\<rparr>,
              map (\<lambda>l_move_to_penalty. l_move_to_penalty(p := 0)) ets_mtp))
       [0..<k_blocks (fst st)] st"

definition gain_of_high_degree_vertex ::
  "PartitionedHypergraph \<Rightarrow> HypernodeID \<Rightarrow> HyperedgeID list list
     \<Rightarrow> (PartitionID \<Rightarrow> HyperedgeWeight) list
     \<Rightarrow> PartitionedHypergraph \<times> (PartitionID \<Rightarrow> HyperedgeWeight) list" where
  "gain_of_high_degree_vertex phg u work ets_mtp =
     (let locals = map (\<lambda>(hes, l_move_to_penalty).
                          fold (aggregate_contribution_of_he_for_vertex phg (partID phg u))
                            hes (0, 0, l_move_to_penalty))
                     (zip work ets_mtp);
          move_from_benefit_of_u = sum_int32 (map fst locals);
          incident_edges_weight = sum_int32 (map (\<lambda>r. fst (snd r)) locals)
      in store_penalties_high u incident_edges_weight
           (phg\<lparr>move_from_benefit := (move_from_benefit phg)(u := move_from_benefit_of_u)\<rparr>,
            map (\<lambda>r. snd (snd r)) locals))"

text \<open>
  A work distribution of a node over \<open>T\<close> threads is valid when every incident edge
  position is covered exactly once.
\<close>

definition valid_work :: "Hypergraph \<Rightarrow> nat \<Rightarrow> HypernodeID \<Rightarrow> HyperedgeID list list \<Rightarrow> bool" where
  "valid_work h T u work =
     (length work = T \<and> mset (concat work) = mset (incidentEdges h u))"

text \<open>
  \<^verbatim>\<open>initializeGainInformation\<close> for \<open>T\<close> threads. The loop over the nodes is run by
  thread 0; the nodes above the threshold are collected and then reduced in parallel,
  \<open>work u\<close> being the distribution of the incident edges of \<open>u\<close>.
\<close>

definition gain_stage1_step ::
  "HypernodeID
     \<Rightarrow> PartitionedHypergraph \<times> (PartitionID \<Rightarrow> HyperedgeWeight) list \<times> HypernodeID list
     \<Rightarrow> PartitionedHypergraph \<times> (PartitionID \<Rightarrow> HyperedgeWeight) list \<times> HypernodeID list" where
  "gain_stage1_step u st =
     (case st of (s, ets_mtp, high_degree_vertices) \<Rightarrow>
        if nodeIsEnabled (hg s) u
        then (if nodeDegree (hg s) u \<le> HIGH_DEGREE_THRESHOLD
              then (case gain_of_low_degree_vertex s u (ets_mtp ! 0) of
                      (s1, l_move_to_penalty) \<Rightarrow>
                        (s1, ets_mtp[0 := l_move_to_penalty], high_degree_vertices))
              else (s, ets_mtp, high_degree_vertices @ [u]))
        else st)"

definition initializeGainInformation ::
  "nat \<Rightarrow> (HypernodeID \<Rightarrow> HyperedgeID list list) \<Rightarrow> PartitionedHypergraph
     \<Rightarrow> PartitionedHypergraph" where
  "initializeGainInformation T work phg =
     (case fold gain_stage1_step [0..<initialNumNodes (hg phg)]
             (phg, replicate T (\<lambda>_. 0), []) of
        (phg1, ets_mtp, high_degree_vertices) \<Rightarrow>
          (fst (fold (\<lambda>u (s, ets). gain_of_high_degree_vertex s u (work u) ets)
                  high_degree_vertices (phg1, ets_mtp)))
            \<lparr>is_gain_cache_initialized := True\<rparr>)"

section \<open>The km1 objective\<close>


section \<open>FM details (mt-kahypar/partition/refinement/fm/fm_details.h)\<close>

text \<open>
  \<^verbatim>\<open>bestDestinationBlock\<close>. The numeric limits of \<^verbatim>\<open>HyperedgeWeight\<close> are declared outside
  the sources at hand and are the parameters \<open>hw_max\<close> and \<open>hw_min\<close>;
  \<open>max_part_weights\<close> is \<^verbatim>\<open>context.partition.max_part_weights\<close>. The loop state is
  (\<open>to\<close>, \<open>to_penalty\<close>, \<open>best_to_weight\<close>). The function reads the weight of the
  node's block, so the node must be assigned: the result is \<open>None\<close> for an unassigned
  node.
\<close>

definition best_destination_step ::
  "(PartitionID \<Rightarrow> HypernodeWeight) \<Rightarrow> PartitionedHypergraph \<Rightarrow> HypernodeID \<Rightarrow> PartitionID
     \<Rightarrow> PartitionID
     \<Rightarrow> PartitionID option \<times> HyperedgeWeight \<times> HypernodeWeight
     \<Rightarrow> PartitionID option \<times> HyperedgeWeight \<times> HypernodeWeight" where
  "best_destination_step max_part_weights phg u from i st =
     (case st of (to, to_penalty, best_to_weight) \<Rightarrow>
        if i \<noteq> from
        then (let to_weight = partWeight phg i;
                  penalty = moveToPenalty phg u i
              in if (penalty < to_penalty \<or> (penalty = to_penalty \<and> to_weight < best_to_weight))
                    \<and> wrap_int32 (to_weight + nodeWeight (hg phg) u) \<le> max_part_weights i
                 then (Some i, penalty, to_weight)
                 else st)
        else st)"

definition bestDestinationBlock ::
  "HyperedgeWeight \<Rightarrow> HyperedgeWeight \<Rightarrow> (PartitionID \<Rightarrow> HypernodeWeight)
     \<Rightarrow> PartitionedHypergraph \<Rightarrow> HypernodeID \<Rightarrow> (PartitionID option \<times> Gain) option" where
  "bestDestinationBlock hw_max hw_min max_part_weights phg u =
     (case partID phg u of
        None \<Rightarrow> None
      | Some from \<Rightarrow>
          (let wu = nodeWeight (hg phg) u;
               from_weight = partWeight phg from
           in case fold (best_destination_step max_part_weights phg u from) [0..<k_blocks phg]
                     (None, hw_max, wrap_int32 (from_weight - wu)) of
                (to, to_penalty, best_to_weight) \<Rightarrow>
                  Some (to, if to \<noteq> None then wrap_int32 (moveFromBenefit phg u - to_penalty)
                            else hw_min)))"

section \<open>Arithmetic in 32 bits\<close>

text \<open>
  The reduction is the identity on the representable values and commutes with addition
  and subtraction; a sum accumulated in 32 bits is the reduction of the exact sum.
\<close>

lemma wrap_int32_fits [simp]: "fits_int32 (wrap_int32 x)"
proof -
  have "0 \<le> (x + 2147483648) mod 4294967296" "(x + 2147483648) mod 4294967296 < 4294967296"
    by simp_all
  then show ?thesis
    unfolding fits_int32_def wrap_int32_def by linarith
qed

lemma wrap_int32_id: "fits_int32 x \<Longrightarrow> wrap_int32 x = x"
proof -
  assume "fits_int32 x"
  then have "0 \<le> x + 2147483648" "x + 2147483648 < 4294967296"
    unfolding fits_int32_def by linarith+
  then have "(x + 2147483648) mod 4294967296 = x + 2147483648"
    by (rule mod_pos_pos_trivial)
  then show ?thesis
    unfolding wrap_int32_def by linarith
qed

lemma wrap_int32_overflow:
  "wrap_int32 (2147483647 + 1) = - 2147483648"
  "wrap_int32 (- 2147483648 - 1) = 2147483647"
  "sum_int32 [2147483647, 1] = - 2147483648"
  by (simp_all add: wrap_int32_def sum_int32_def)

lemma wrap_int32_idem [simp]: "wrap_int32 (wrap_int32 x) = wrap_int32 x"
  by (rule wrap_int32_id) (rule wrap_int32_fits)

lemma wrap_int32_cong:
  assumes "a mod 4294967296 = b mod 4294967296"
  shows "wrap_int32 a = wrap_int32 b"
proof -
  have "(a + 2147483648) mod 4294967296 = (b + 2147483648) mod 4294967296"
    using assms by (rule mod_add_cong) (rule refl)
  then show ?thesis
    unfolding wrap_int32_def by (rule arg_cong)
qed

lemma wrap_int32_mod: "wrap_int32 x mod 4294967296 = x mod 4294967296"
proof -
  have "wrap_int32 x = (x + 2147483648) mod 4294967296 + (- 2147483648)"
    unfolding wrap_int32_def by linarith
  then have "wrap_int32 x mod 4294967296
               = ((x + 2147483648) mod 4294967296 + (- 2147483648)) mod 4294967296"
    by (rule arg_cong)
  also have "\<dots> = (x + 2147483648 + (- 2147483648)) mod 4294967296"
    by (rule mod_add_left_eq)
  also have "x + 2147483648 + (- 2147483648) = x"
    by linarith
  finally show ?thesis .
qed

lemma wrap_int32_add_left [simp]: "wrap_int32 (wrap_int32 a + b) = wrap_int32 (a + b)"
  by (rule wrap_int32_cong, rule mod_add_cong, rule wrap_int32_mod, rule refl)

lemma wrap_int32_add_right [simp]: "wrap_int32 (a + wrap_int32 b) = wrap_int32 (a + b)"
  by (rule wrap_int32_cong, rule mod_add_cong, rule refl, rule wrap_int32_mod)

lemma wrap_int32_diff_left [simp]: "wrap_int32 (wrap_int32 a - b) = wrap_int32 (a - b)"
  by (rule wrap_int32_cong, rule mod_diff_cong, rule wrap_int32_mod, rule refl)

lemma wrap_int32_diff_right [simp]: "wrap_int32 (a - wrap_int32 b) = wrap_int32 (a - b)"
  by (rule wrap_int32_cong, rule mod_diff_cong, rule refl, rule wrap_int32_mod)

lemma wrap_int32_0 [simp]: "wrap_int32 0 = 0"
  by (rule wrap_int32_id) (simp add: fits_int32_def)

lemma sum_int32_fold:
  "fold (\<lambda>x acc. wrap_int32 (acc + x)) xs a = wrap_int32 (a + sum_list xs)" if "fits_int32 a"
  using that
proof (induction xs arbitrary: a)
  case Nil
  then show ?case by (simp add: wrap_int32_id)
next
  case (Cons x xs)
  have "fold (\<lambda>x acc. wrap_int32 (acc + x)) (x # xs) a
          = fold (\<lambda>x acc. wrap_int32 (acc + x)) xs (wrap_int32 (a + x))"
    by simp
  also have "\<dots> = wrap_int32 (wrap_int32 (a + x) + sum_list xs)"
    by (rule Cons.IH) (rule wrap_int32_fits)
  also have "\<dots> = wrap_int32 (a + sum_list (x # xs))"
    by (simp add: add.assoc)
  finally show ?case .
qed

lemma sum_int32_closed: "sum_int32 xs = wrap_int32 (sum_list xs)"
  using sum_int32_fold [of 0 xs] by (simp add: sum_int32_def fits_int32_def)

lemma wrap_int32_sum_list_map:
  "wrap_int32 (sum_list (map (\<lambda>x. wrap_int32 (f x)) xs)) = wrap_int32 (sum_list (map f xs))"
proof (induction xs)
  case Nil
  show ?case by simp
next
  case (Cons x xs)
  have "wrap_int32 (sum_list (map (\<lambda>x. wrap_int32 (f x)) (x # xs)))
          = wrap_int32 (f x + wrap_int32 (sum_list (map (\<lambda>x. wrap_int32 (f x)) xs)))"
    by simp
  also have "\<dots> = wrap_int32 (f x + wrap_int32 (sum_list (map f xs)))"
    by (simp only: Cons.IH)
  also have "\<dots> = wrap_int32 (sum_list (map f (x # xs)))"
    by simp
  finally show ?case .
qed

section \<open>Results on the atomic wrapper and the container\<close>

text \<open>
  Claim C9 (postfix decrement stores \<open>x - 1\<close> and returns \<open>x\<close>). The source body is
  \<^verbatim>\<open>return _value++;\<close>: on a wrapper holding 5 the call returns 5 and leaves 6, not 4.
\<close>

theorem iaw_post_decrement_increments:
  "iaw_post_decrement (IntegralAtomicWrapper 5 :: 32 IntegralAtomicWrapper)
     = (5, IntegralAtomicWrapper 6)
   \<and> snd (iaw_post_decrement (IntegralAtomicWrapper 5 :: 32 IntegralAtomicWrapper))
     \<noteq> IntegralAtomicWrapper (5 - 1)"
  by (simp add: iaw_post_decrement_def atomic_value_def IntegralAtomicWrapper_def)

text \<open>
  Claim C10 (a failed \<open>try_pop\<close> on an empty container leaves it unchanged). The counter
  is decremented before the test and never restored: on an empty container of two slots
  the call returns false with the counter at \<open>2^64 - 1\<close>, the container no longer reports
  empty, and the next \<open>push_back\<close> addresses slot \<open>2^64 - 1\<close> instead of slot 0.
\<close>

theorem try_pop_empty_underflows:
  "try_pop (cdc_new 2 (0::nat)) 9
     = Some (False, 9, \<lparr>cdc_size = 18446744073709551615, elements = [0, 0]\<rparr>)
   \<and> \<not> cdc_empty (\<lparr>cdc_size = 18446744073709551615, elements = [0, 0::nat]\<rparr>)
   \<and> push_back (\<lparr>cdc_size = 18446744073709551615, elements = [0, 0::nat]\<rparr>) 7 = None
   \<and> push_back (cdc_new 2 (0::nat)) 7 = Some \<lparr>cdc_size = 1, elements = [7, 0]\<rparr>"
proof -
  have slots: "replicate 2 (0::nat) = [0, 0]"
    by (simp add: numeral_2_eq_2)
  show ?thesis
    by (simp add: try_pop_def cdc_new_def cdc_empty_def unsafe_size_def push_back_def
        Let_def slots)
qed

section \<open>The scenarios of the specification, run on the code\<close>

text \<open>
  Scenario 1: two nodes, one edge \<open>{0, 1}\<close>, unit weights, \<open>k = 2\<close>, blocks \<open>[0, 1]\<close>.
\<close>

definition scenario1_hg :: Hypergraph where
  "scenario1_hg =
     \<lparr>initialNumNodes = 2, initialNumEdges = 1,
      nodeWeight = (\<lambda>_. 1), edgeWeight = (\<lambda>_. 1),
      pins = (\<lambda>e. if e = 0 then [0, 1] else []),
      incidentEdges = (\<lambda>u. if u < 2 then [0] else []),
      nodeIsEnabled = (\<lambda>u. u < 2), edgeIsEnabled = (\<lambda>e. e < 1)\<rparr>"

definition scenario1 :: PartitionedHypergraph where
  "scenario1 =
     initializePartition
       (setOnlyNodePart (setOnlyNodePart (new_PartitionedHypergraph 2 scenario1_hg) 0 0) 1 1)"

text \<open>
  Scenario 3: four nodes, one edge \<open>{0, 1, 2, 3}\<close>, unit weights, \<open>k = 2\<close>, blocks
  \<open>[0, 0, 0, 1]\<close>, gain cache initialised. \<open>scenario3\<close> is the state written out;
  \<open>scenario3_initialised\<close> below checks it against the state that the initialisation
  functions build (with one thread).
\<close>

definition scenario3_hg :: Hypergraph where
  "scenario3_hg =
     \<lparr>initialNumNodes = 4, initialNumEdges = 1,
      nodeWeight = (\<lambda>_. 1), edgeWeight = (\<lambda>_. 1),
      pins = (\<lambda>e. if e = 0 then [0, 1, 2, 3] else []),
      incidentEdges = (\<lambda>u. if u < 4 then [0] else []),
      nodeIsEnabled = (\<lambda>u. u < 4), edgeIsEnabled = (\<lambda>e. e < 1)\<rparr>"

definition scenario3 :: PartitionedHypergraph where
  "scenario3 =
     \<lparr>is_gain_cache_initialized = True, k_blocks = 2, hg = scenario3_hg,
      part_weights = (\<lambda>p. if p = 0 then 3 else if p = 1 then 1 else 0),
      part_ids = (\<lambda>u. if u < 3 then Some 0 else if u = 3 then Some 1 else None),
      pins_in_part = (\<lambda>e p. if e = 0 then (if p = 0 then 3 else if p = 1 then 1 else 0) else 0),
      connectivity_set = (\<lambda>e. if e = 0 then {0, 1} else {}),
      move_to_penalty = (\<lambda>_. 0),
      move_from_benefit = (\<lambda>u. if u = 3 then 1 else 0),
      pin_count_update_ownership = (\<lambda>_. False)\<rparr>"

definition observe ::
  "PartitionedHypergraph \<Rightarrow> HypernodeID list \<Rightarrow> HyperedgeID list \<Rightarrow> PartitionID list
     \<Rightarrow> PartitionID option list \<times> HypernodeWeight list \<times> nat list list \<times> PartitionID list list
        \<times> HyperedgeWeight list \<times> HyperedgeWeight list list" where
  "observe phg us es ps =
     (map (partID phg) us, map (partWeight phg) ps,
      map (\<lambda>e. map (pinCountInPart phg e) ps) es, map (connectivitySet phg) es,
      map (moveFromBenefit phg) us, map (\<lambda>u. map (moveToPenalty phg u) ps) us)"

lemma scenario3_initialised:
  "observe
     (initializeGainInformation 1 (\<lambda>u. [incidentEdges scenario3_hg u])
        (initializePartition
           (setOnlyNodePart (setOnlyNodePart (setOnlyNodePart (setOnlyNodePart
              (new_PartitionedHypergraph 2 scenario3_hg) 0 0) 1 0) 2 0) 3 1)))
     [0, 1, 2, 3] [0] [0, 1]
   = observe scenario3 [0, 1, 2, 3] [0] [0, 1]"
  by code_simp

text \<open>
  Claim C1 as stated (the trigger \<open>c_to = 2\<close> decrements the benefit of exactly one
  vertex, the other pin in \<open>to\<close>, and not that of the moved vertex) fails. Scenario 3,
  node 2 moved from block 0 to block 1: the pin counts become 2 and 2, and the last loop
  of \<^verbatim>\<open>gainCacheUpdate\<close>, which is not told which node moved and visits every pin in
  \<open>to\<close>, decrements the benefit of node 3 and of the moved node 2. The benefit of node 2
  is then \<open>-1\<close>, while its recomputation gives 0: the delta update does not maintain
  the benefit of the moved node, which \<^verbatim>\<open>recomputeMoveFromBenefit\<close> refreshes.
\<close>

theorem gainCacheUpdate_decrements_moved_vertex:
  "map (moveFromBenefit scenario3) [0, 1, 2, 3] = [0, 0, 0, 1]
   \<and> map (pinCountInPart scenario3 0) [0, 1] = [3, 1]
   \<and> map_option (\<lambda>r. (fst r, map (pinCountInPart (snd r) 0) [0, 1],
                        map (moveFromBenefit (snd r)) [0, 1, 2, 3],
                        map (moveFromBenefitRecomputed (snd r)) [0, 1, 2, 3]))
         (changeNodePartFullUpdate 2 0 1 2147483647 id NOOP_FUNC scenario3)
       = Some (True, [2, 2], [0, 0, - 1, 0], [0, 0, 0, 0])
   \<and> map (moveFromBenefit
            (gainCacheUpdate 0 1 0 2 1 2 (scenario3\<lparr>part_ids := (part_ids scenario3)(2 := Some 1)\<rparr>)))
         [0, 1, 2, 3] = [0, 0, - 1, 0]"
  by code_simp

text \<open>
  Claim C2 (the move succeeds iff the weight of \<open>to\<close> after the addition is at most
  \<open>max_weight_to\<close> and the weight of \<open>from\<close> after the subtraction is positive).
  Scenario 1, node 0 moved from block 0 to block 1: block 0 has weight 1 before and 0
  after the move. \<^verbatim>\<open>from_weight_after\<close> is the result of \<^verbatim>\<open>fetch_sub\<close>, the weight before
  the subtraction, so the test \<open>from_weight_after > 0\<close> passes and the move is carried
  out, leaving block 0 empty.
\<close>

theorem changeNodePart_empties_block:
  "partWeight scenario1 0 = 1 \<and> partWeight scenario1 1 = 1
   \<and> nodeWeight (hg scenario1) 0 = 1 \<and> partID scenario1 0 = Some 0
   \<and> map_option (\<lambda>r. (fst r, partWeight (snd r) 0, partWeight (snd r) 1, partID (snd r) 0))
         (changeNodePart 0 0 1 2147483647 id NOOP_FUNC scenario1)
       = Some (True, 0, 2, Some 1)"
  by code_simp

text \<open>
  Claim C6 as stated (a move followed at once by the reverse move restores all observable
  state, every gain cache entry included) fails for the benefit of the moved node.
  Scenario 3, node 2 moved from block 0 to block 1 and back: both moves succeed, block
  ids, block weights, pin counts, penalties and the benefits of the other nodes return to
  their values, and the benefit of node 2 is \<open>-1\<close> where it was 0. The first move
  decrements it (the loop for \<open>c_to = 2\<close> also visits the moved node); nothing in the
  second move adds it back.
\<close>

theorem round_trip_changes_benefit:
  "(map (moveFromBenefit scenario3) [0, 1, 2, 3],
    map (\<lambda>u. map (moveToPenalty scenario3 u) [0, 1]) [0, 1, 2, 3],
    map (pinCountInPart scenario3 0) [0, 1], map (partWeight scenario3) [0, 1],
    map (partID scenario3) [0, 1, 2, 3])
     = ([0, 0, 0, 1], [[0, 0], [0, 0], [0, 0], [0, 0]], [3, 1], [3, 1],
        [Some 0, Some 0, Some 0, Some 1])
   \<and> (case changeNodePartFullUpdate 2 0 1 2147483647 id NOOP_FUNC scenario3 of
         Some (True, s1) \<Rightarrow>
           map_option (\<lambda>r. (fst r, map (moveFromBenefit (snd r)) [0, 1, 2, 3],
                              map (\<lambda>u. map (moveToPenalty (snd r) u) [0, 1]) [0, 1, 2, 3],
                              map (pinCountInPart (snd r) 0) [0, 1],
                              map (partWeight (snd r)) [0, 1],
                              map (partID (snd r)) [0, 1, 2, 3]))
             (changeNodePartFullUpdate 2 1 0 2147483647 id NOOP_FUNC s1)
       | _ \<Rightarrow> None)
     = Some (True, [0, 0, - 1, 1], [[0, 0], [0, 0], [0, 0], [0, 0]], [3, 1], [3, 1],
             [Some 0, Some 0, Some 0, Some 1])"
  by code_simp

text \<open>
  A node of degree 100001: nodes 0 and 1 in blocks 0 and 1, and the edges
  \<open>0, ..., 100000\<close>, each with the pins 0 and 1, so that every edge is cut.
\<close>

definition high_degree_hg :: Hypergraph where
  "high_degree_hg =
     \<lparr>initialNumNodes = 2, initialNumEdges = 100001,
      nodeWeight = (\<lambda>_. 1), edgeWeight = (\<lambda>_. 1),
      pins = (\<lambda>e. if e < 100001 then [0, 1] else []),
      incidentEdges = (\<lambda>u. if u < 2 then [0..<100001] else []),
      nodeIsEnabled = (\<lambda>u. u < 2), edgeIsEnabled = (\<lambda>e. e < 100001)\<rparr>"

definition high_degree_state :: PartitionedHypergraph where
  "high_degree_state =
     \<lparr>is_gain_cache_initialized = False, k_blocks = 2, hg = high_degree_hg,
      part_weights = (\<lambda>p. if p < 2 then 1 else 0),
      part_ids = (\<lambda>u. if u < 2 then Some u else None),
      pins_in_part = (\<lambda>e p. if e < 100001 \<and> p < 2 then 1 else 0),
      connectivity_set = (\<lambda>e. if e < 100001 then {0, 1} else {}),
      move_to_penalty = (\<lambda>_. 0), move_from_benefit = (\<lambda>_. 0),
      pin_count_update_ownership = (\<lambda>_. False)\<rparr>"

section \<open>Border nodes\<close>

text \<open>
  Claim C8 (\<open>isBorderNode\<close> is true iff some incident edge has connectivity above one).
  As stated the claim fails for a node of degree above the threshold: node 0 of
  \<open>high_degree_state\<close> has the cut edge 0 and is answered \<open>False\<close>.
\<close>

theorem isBorderNode_high_degree_counterexample:
  "\<not> isBorderNode high_degree_state 0
   \<and> 0 \<in> set (incidentEdges (hg high_degree_state) 0)
   \<and> connectivity high_degree_state 0 = 2"
  by (simp add: isBorderNode_def high_degree_state_def high_degree_hg_def nodeDegree_def
      HIGH_DEGREE_THRESHOLD_def connectivity_def cs_connectivity_def del: upt_rec_numeral)

text \<open>
  Claim C8, amended: \<open>isBorderNode\<close> is true iff the degree of the node is at most
  100000 and some incident edge has connectivity above one.
\<close>

theorem isBorderNode_iff:
  "isBorderNode phg u \<longleftrightarrow>
     nodeDegree (hg phg) u \<le> HIGH_DEGREE_THRESHOLD
     \<and> (\<exists>he \<in> set (incidentEdges (hg phg) u). connectivity phg he > 1)"
  by (simp add: isBorderNode_def list_ex_iff)

section \<open>The best destination block\<close>

text \<open>
  The predicates in which the result of \<open>bestDestinationBlock\<close> is stated: a block is
  feasible when it is a block other than \<open>from\<close> that can take the node within its
  maximum weight; it is below the sentinel when it beats the initial loop state
  (\<open>hw_max\<close>, \<open>part_weight(from) - node_weight(u)\<close>); \<open>b\<close> is no worse than \<open>c\<close> when
  its penalty is smaller, or equal with a part weight that is not larger.
\<close>

definition feasible_block ::
  "(PartitionID \<Rightarrow> HypernodeWeight) \<Rightarrow> PartitionedHypergraph \<Rightarrow> HypernodeID \<Rightarrow> PartitionID
     \<Rightarrow> PartitionID \<Rightarrow> bool" where
  "feasible_block max_part_weights phg u from b =
     (b < k_blocks phg \<and> b \<noteq> from
      \<and> partWeight phg b + nodeWeight (hg phg) u \<le> max_part_weights b)"

definition below_sentinel ::
  "HyperedgeWeight \<Rightarrow> PartitionedHypergraph \<Rightarrow> HypernodeID \<Rightarrow> PartitionID \<Rightarrow> PartitionID \<Rightarrow> bool" where
  "below_sentinel hw_max phg u from b =
     (moveToPenalty phg u b < hw_max
      \<or> (moveToPenalty phg u b = hw_max
          \<and> partWeight phg b < partWeight phg from - nodeWeight (hg phg) u))"

definition no_worse_block ::
  "PartitionedHypergraph \<Rightarrow> HypernodeID \<Rightarrow> PartitionID \<Rightarrow> PartitionID \<Rightarrow> bool" where
  "no_worse_block phg u b c =
     (moveToPenalty phg u b < moveToPenalty phg u c
      \<or> (moveToPenalty phg u b = moveToPenalty phg u c \<and> partWeight phg b \<le> partWeight phg c))"

definition best_destination_inv ::
  "HyperedgeWeight \<Rightarrow> (PartitionID \<Rightarrow> HypernodeWeight) \<Rightarrow> PartitionedHypergraph \<Rightarrow> HypernodeID
     \<Rightarrow> PartitionID \<Rightarrow> PartitionID list
     \<Rightarrow> PartitionID option \<times> HyperedgeWeight \<times> HypernodeWeight \<Rightarrow> bool" where
  "best_destination_inv hw_max mx phg u from bs st =
     (case st of
        (None, pen, w) \<Rightarrow>
          pen = hw_max \<and> w = partWeight phg from - nodeWeight (hg phg) u
          \<and> (\<forall>c \<in> set bs. \<not> (feasible_block mx phg u from c \<and> below_sentinel hw_max phg u from c))
      | (Some b, pen, w) \<Rightarrow>
          b \<in> set bs \<and> feasible_block mx phg u from b \<and> below_sentinel hw_max phg u from b
          \<and> pen = moveToPenalty phg u b \<and> w = partWeight phg b
          \<and> (\<forall>c \<in> set bs. feasible_block mx phg u from c \<and> below_sentinel hw_max phg u from c
                \<longrightarrow> no_worse_block phg u b c))"

text \<open>
  The three computations of \<open>bestDestinationBlock\<close> on weights: the initial
  \<open>best_to_weight\<close>, the weight of a candidate block with the node added, and the gain.
  \<open>destination_in_range\<close> says that none of them leaves the 32-bit range.
\<close>

definition destination_in_range ::
  "PartitionedHypergraph \<Rightarrow> HypernodeID \<Rightarrow> PartitionID \<Rightarrow> bool" where
  "destination_in_range phg u from \<longleftrightarrow>
     fits_int32 (partWeight phg from - nodeWeight (hg phg) u)
     \<and> list_all (\<lambda>b. b = from
                     \<or> (fits_int32 (partWeight phg b + nodeWeight (hg phg) u)
                         \<and> fits_int32 (moveFromBenefit phg u - moveToPenalty phg u b)))
         [0..<k_blocks phg]"

lemma destination_in_range_block:
  assumes "destination_in_range phg u from" "b < k_blocks phg" "b \<noteq> from"
  shows "wrap_int32 (partWeight phg b + nodeWeight (hg phg) u)
           = partWeight phg b + nodeWeight (hg phg) u"
    and "wrap_int32 (moveFromBenefit phg u - moveToPenalty phg u b)
           = moveFromBenefit phg u - moveToPenalty phg u b"
proof -
  have "b \<in> set [0..<k_blocks phg]"
    using assms(2) by simp
  with assms(1,3)
  have "fits_int32 (partWeight phg b + nodeWeight (hg phg) u)
        \<and> fits_int32 (moveFromBenefit phg u - moveToPenalty phg u b)"
    unfolding destination_in_range_def list_all_iff by blast
  then show "wrap_int32 (partWeight phg b + nodeWeight (hg phg) u)
               = partWeight phg b + nodeWeight (hg phg) u"
    and "wrap_int32 (moveFromBenefit phg u - moveToPenalty phg u b)
           = moveFromBenefit phg u - moveToPenalty phg u b"
    by (simp_all add: wrap_int32_id)
qed

lemma destination_in_range_start:
  assumes "destination_in_range phg u from"
  shows "wrap_int32 (partWeight phg from - nodeWeight (hg phg) u)
           = partWeight phg from - nodeWeight (hg phg) u"
  using assms by (simp add: destination_in_range_def wrap_int32_id)

lemma best_destination_step_inv:
  assumes inv: "best_destination_inv hw_max mx phg u from bs st" and i: "i < k_blocks phg"
    and fit: "destination_in_range phg u from"
  shows "best_destination_inv hw_max mx phg u from (bs @ [i])
           (best_destination_step mx phg u from i st)"
proof -
  obtain to pen w where st: "st = (to, pen, w)"
    by (cases st) auto
  define P where "P = moveToPenalty phg u"
  define W where "W = partWeight phg"
  define wu where "wu = nodeWeight (hg phg) u"
  define elig where "elig c = (feasible_block mx phg u from c \<and> below_sentinel hw_max phg u from c)" for c
  define acc where "acc = (i \<noteq> from \<and> (P i < pen \<or> (P i = pen \<and> W i < w)) \<and> W i + wu \<le> mx i)"
  have exact: "wrap_int32 (W i + wu) = W i + wu" if "i \<noteq> from"
    using destination_in_range_block(1) [OF fit i that] by (simp add: W_def wu_def)
  have step: "best_destination_step mx phg u from i st = (if acc then (Some i, P i, W i) else st)"
  proof (cases "i = from")
    case True
    then show ?thesis
      by (simp add: best_destination_step_def st acc_def)
  next
    case False
    have "best_destination_step mx phg u from i st
            = (if (P i < pen \<or> (P i = pen \<and> W i < w)) \<and> wrap_int32 (W i + wu) \<le> mx i
               then (Some i, P i, W i) else st)"
      using False by (simp add: best_destination_step_def st P_def W_def wu_def Let_def)
    then show ?thesis
      using False by (simp add: exact acc_def)
  qed
  have elig_iff: "elig c \<longleftrightarrow> c < k_blocks phg \<and> c \<noteq> from \<and> W c + wu \<le> mx c
                    \<and> (P c < hw_max \<or> (P c = hw_max \<and> W c < W from - wu))" for c
    by (simp add: elig_def feasible_block_def below_sentinel_def P_def W_def wu_def)
  have nw_iff: "no_worse_block phg u b c \<longleftrightarrow> P b < P c \<or> (P b = P c \<and> W b \<le> W c)" for b c
    by (simp add: no_worse_block_def P_def W_def)
  show ?thesis
  proof (cases to)
    case None
    from inv have pen: "pen = hw_max" and w: "w = W from - wu"
      and none: "\<forall>c \<in> set bs. \<not> elig c"
      by (simp_all add: best_destination_inv_def st None elig_def W_def wu_def)
    have acc_elig: "acc \<longleftrightarrow> elig i"
      using i by (auto simp: acc_def elig_iff pen w)
    show ?thesis
    proof (cases acc)
      case True
      then have "elig i" by (simp add: acc_elig)
      moreover have "no_worse_block phg u i i" by (simp add: nw_iff)
      ultimately show ?thesis
        using none True
        by (auto simp add: step best_destination_inv_def elig_def P_def W_def)
    next
      case False
      then have "\<not> elig i" by (simp add: acc_elig)
      moreover have "best_destination_step mx phg u from i st = (None, pen, w)"
        using False step by (simp add: st None)
      ultimately show ?thesis
        using none pen w
        by (simp add: best_destination_inv_def elig_def W_def wu_def)
    qed
  next
    case (Some b)
    from inv have b: "b \<in> set bs" "elig b" and pen: "pen = P b" and w: "w = W b"
      and best: "\<forall>c \<in> set bs. elig c \<longrightarrow> no_worse_block phg u b c"
      by (simp_all add: best_destination_inv_def st Some elig_def P_def W_def)
    show ?thesis
    proof (cases acc)
      case True
      have lt: "P i < P b \<or> (P i = P b \<and> W i < W b)"
        using True by (simp add: acc_def pen w)
      have "elig i"
        using True b(2) i lt unfolding acc_def elig_iff by auto
      moreover have "no_worse_block phg u i c" if "c \<in> set bs" "elig c" for c
      proof -
        from best that have "no_worse_block phg u b c" by blast
        with lt show ?thesis unfolding nw_iff by auto
      qed
      moreover have "no_worse_block phg u i i" by (simp add: nw_iff)
      ultimately show ?thesis
        using True
        by (auto simp add: step best_destination_inv_def elig_def P_def W_def)
    next
      case False
      have "no_worse_block phg u b i" if "elig i"
        using that False unfolding acc_def elig_iff nw_iff pen w by auto
      moreover have "best_destination_step mx phg u from i st = (Some b, pen, w)"
        using False step by (simp add: st Some)
      ultimately show ?thesis
        using b best pen w
        by (auto simp add: best_destination_inv_def elig_def P_def W_def)
    qed
  qed
qed

lemma best_destination_fold_inv:
  assumes fit: "destination_in_range phg u from"
  shows "best_destination_inv hw_max mx phg u from bs0 st \<Longrightarrow>
         \<forall>i \<in> set bs. i < k_blocks phg \<Longrightarrow>
         best_destination_inv hw_max mx phg u from (bs0 @ bs)
           (fold (best_destination_step mx phg u from) bs st)"
proof (induction bs arbitrary: bs0 st)
  case Nil
  then show ?case by simp
next
  case (Cons i bs)
  have "i < k_blocks phg"
    using Cons.prems(2) by simp
  with Cons.prems(1) have "best_destination_inv hw_max mx phg u from (bs0 @ [i])
          (best_destination_step mx phg u from i st)"
    using fit by (rule best_destination_step_inv)
  from Cons.IH [OF this] Cons.prems(2) show ?case by simp
qed

text \<open>
  Claim C7, amended: for an assigned node \<open>u\<close> in block \<open>from\<close>, with no overflow in
  the weights that the function computes, \<open>bestDestinationBlock\<close> returns a result. Among
  the blocks \<open>b \<noteq> from\<close> that are feasible
  (\<open>part_weight(b) + node_weight(u) \<le> max_part_weights[b]\<close>) and lie below the initial
  sentinel (penalty below the maximum weight \<open>hw_max\<close>, or equal to it with
  \<open>part_weight(b) < part_weight(from) - node_weight(u)\<close>) it returns one of least penalty
  and, among those, of least part weight, with the gain \<open>benefit(u) - penalty(u, b)\<close>;
  it returns (\<^verbatim>\<open>kInvalidPartition\<close>, \<open>hw_min\<close>) iff there is no such block.
\<close>

theorem bestDestinationBlock_best_below_sentinel:
  assumes "partID phg u = Some from" and fit: "destination_in_range phg u from"
  shows "case bestDestinationBlock hw_max hw_min mx phg u of
           None \<Rightarrow> False
         | Some (None, gain) \<Rightarrow>
             gain = hw_min
             \<and> (\<forall>c. \<not> (feasible_block mx phg u from c \<and> below_sentinel hw_max phg u from c))
         | Some (Some b, gain) \<Rightarrow>
             feasible_block mx phg u from b \<and> below_sentinel hw_max phg u from b
             \<and> gain = moveFromBenefit phg u - moveToPenalty phg u b
             \<and> (\<forall>c. feasible_block mx phg u from c \<and> below_sentinel hw_max phg u from c
                   \<longrightarrow> no_worse_block phg u b c)"
proof -
  let ?start = "(None, hw_max, partWeight phg from - nodeWeight (hg phg) u)"
  let ?st = "fold (best_destination_step mx phg u from) [0..<k_blocks phg] ?start"
  have "best_destination_inv hw_max mx phg u from [] ?start"
    by (simp add: best_destination_inv_def)
  from best_destination_fold_inv [OF fit this, where bs = "[0..<k_blocks phg]"]
  have inv: "best_destination_inv hw_max mx phg u from [0..<k_blocks phg] ?st"
    by simp
  have all: "feasible_block mx phg u from c \<Longrightarrow> c \<in> set [0..<k_blocks phg]" for c
    by (simp add: feasible_block_def)
  obtain to pen w where st: "?st = (to, pen, w)"
    by (cases ?st) auto
  have run: "bestDestinationBlock hw_max hw_min mx phg u
               = Some (to, if to \<noteq> None then wrap_int32 (moveFromBenefit phg u - pen)
                           else hw_min)"
    using assms(1) st
    by (simp add: bestDestinationBlock_def Let_def destination_in_range_start [OF fit])
  show ?thesis
  proof (cases to)
    case None
    with inv st all show ?thesis
      unfolding run by (auto simp: best_destination_inv_def)
  next
    case (Some b)
    from inv st Some have b: "feasible_block mx phg u from b" and pen: "pen = moveToPenalty phg u b"
      by (simp_all add: best_destination_inv_def)
    from b have "b < k_blocks phg" "b \<noteq> from"
      by (simp_all add: feasible_block_def)
    from destination_in_range_block(2) [OF fit this]
    have "wrap_int32 (moveFromBenefit phg u - pen) = moveFromBenefit phg u - moveToPenalty phg u b"
      by (simp add: pen)
    with inv st all Some show ?thesis
      unfolding run by (auto simp: best_destination_inv_def)
  qed
qed

text \<open>
  An instance with five blocks. Node 0 (weight 2) shares block 0 with node 1; the nodes
  2 to 5 are alone in the blocks 1 to 4. \<open>destination_state\<close> is the state written out,
  with the gain cache initialised; \<open>destination_state_consistent\<close> checks its tables
  against the recomputations of the source. The penalties of node 0 for the blocks 1 to
  4 are 5, 3, 3 and 1 and the block weights are 7, 4, 2 and 9. Block 4 has the least
  penalty but cannot take the node under its maximum weight 10; the blocks 2 and 3 tie on
  the penalty and block 3, the lighter one, is returned, with the gain \<open>5 - 3\<close>.
\<close>

definition destination_hg :: Hypergraph where
  "destination_hg =
     \<lparr>initialNumNodes = 6, initialNumEdges = 4,
      nodeWeight = (\<lambda>u. if u < 6 then [2, 8, 7, 4, 2, 9] ! u else 0),
      edgeWeight = (\<lambda>e. if e < 4 then [2, 2, 1, 1] ! e else 0),
      pins = (\<lambda>e. if e < 4 then [[0, 3, 4, 5], [0, 5], [0, 2, 3, 4], [0, 1, 5]] ! e else []),
      incidentEdges =
        (\<lambda>u. if u < 6 then [[0, 1, 2, 3], [3], [2], [0, 2], [0, 2], [0, 1, 3]] ! u else []),
      nodeIsEnabled = (\<lambda>u. u < 6), edgeIsEnabled = (\<lambda>e. e < 4)\<rparr>"

definition destination_state :: PartitionedHypergraph where
  "destination_state =
     \<lparr>is_gain_cache_initialized = True, k_blocks = 5, hg = destination_hg,
      part_weights = (\<lambda>p. if p < 5 then [10, 7, 4, 2, 9] ! p else 0),
      part_ids = (\<lambda>u. if u < 6 then Some (u - 1) else None),
      pins_in_part =
        (\<lambda>e p. if e < 4 \<and> p < 5
               then [[1, 0, 1, 1, 1], [1, 0, 0, 0, 1], [1, 1, 1, 1, 0], [2, 0, 0, 0, 1]] ! e ! p
               else 0),
      connectivity_set =
        (\<lambda>e. if e < 4 then [{0, 2, 3, 4}, {0, 4}, {0, 1, 2, 3}, {0, 4}] ! e else {}),
      move_to_penalty =
        (\<lambda>i. if i < 30
             then [0, 5, 3, 3, 1,  0, 1, 1, 1, 0,  0, 0, 0, 0, 1,
                   0, 2, 0, 0, 1,  0, 2, 0, 0, 1,  0, 5, 3, 3, 0] ! i
             else 0),
      move_from_benefit = (\<lambda>u. if u < 6 then [5, 0, 1, 3, 3, 5] ! u else 0),
      pin_count_update_ownership = (\<lambda>_. False)\<rparr>"

lemma destination_state_consistent:
  "map (\<lambda>e. map (pinCountInPart destination_state e) [0, 1, 2, 3, 4]) [0, 1, 2, 3]
     = map (\<lambda>e. map (pinCountInPartRecomputed destination_state e) [0, 1, 2, 3, 4]) [0, 1, 2, 3]
   \<and> map (connectivitySet destination_state) [0, 1, 2, 3]
       = map (\<lambda>e. filter (\<lambda>p. 1 \<le> pinCountInPart destination_state e p) [0, 1, 2, 3, 4])
           [0, 1, 2, 3]
   \<and> map (moveFromBenefit destination_state) [0, 1, 2, 3, 4, 5]
       = map (moveFromBenefitRecomputed destination_state) [0, 1, 2, 3, 4, 5]
   \<and> map (\<lambda>u. map (moveToPenalty destination_state u) [0, 1, 2, 3, 4]) [0, 1, 2, 3, 4, 5]
       = map (\<lambda>u. map (moveToPenaltyRecomputed destination_state u) [0, 1, 2, 3, 4])
           [0, 1, 2, 3, 4, 5]
   \<and> map (partWeight destination_state) [0, 1, 2, 3, 4]
       = map (\<lambda>p. sum_list (map (nodeWeight destination_hg)
                     (filter (\<lambda>u. partID destination_state u = Some p) [0, 1, 2, 3, 4, 5])))
           [0, 1, 2, 3, 4]"
  by code_simp

definition destination_max_part_weights :: "PartitionID \<Rightarrow> HypernodeWeight" where
  "destination_max_part_weights b = (if b = 4 then 10 else 12)"

theorem bestDestinationBlock_best_below_sentinel_witness:
  "partID destination_state 0 = Some 0
   \<and> destination_in_range destination_state 0 0
   \<and> map (moveToPenalty destination_state 0) [1, 2, 3, 4] = [5, 3, 3, 1]
   \<and> map (partWeight destination_state) [1, 2, 3, 4] = [7, 4, 2, 9]
   \<and> moveFromBenefit destination_state 0 = 5
   \<and> bestDestinationBlock 2147483647 (- 2147483648) destination_max_part_weights
        destination_state 0 = Some (Some 3, 2)
   \<and> feasible_block destination_max_part_weights destination_state 0 0 3
   \<and> \<not> feasible_block destination_max_part_weights destination_state 0 0 4
   \<and> below_sentinel 2147483647 destination_state 0 0 3
   \<and> feasible_block destination_max_part_weights destination_state 0 0 1
   \<and> feasible_block destination_max_part_weights destination_state 0 0 2
   \<and> no_worse_block destination_state 0 3 1
   \<and> no_worse_block destination_state 0 3 2"
proof -
  have assigned: "partID destination_state 0 = Some 0"
    by code_simp
  have fit: "destination_in_range destination_state 0 0"
    by code_simp
  have vals: "map (moveToPenalty destination_state 0) [1, 2, 3, 4] = [5, 3, 3, 1]"
    "map (partWeight destination_state) [1, 2, 3, 4] = [7, 4, 2, 9]"
    "moveFromBenefit destination_state 0 = 5"
    by code_simp+
  have result: "bestDestinationBlock 2147483647 (- 2147483648) destination_max_part_weights
                  destination_state 0 = Some (Some 3, 2)"
    by code_simp
  have others: "feasible_block destination_max_part_weights destination_state 0 0 1"
    "feasible_block destination_max_part_weights destination_state 0 0 2"
    "\<not> feasible_block destination_max_part_weights destination_state 0 0 4"
    by code_simp+
  have below: "below_sentinel 2147483647 destination_state 0 0 c" if "c \<in> {1, 2}" for c
    using that vals(1) by (auto simp: below_sentinel_def)
  from bestDestinationBlock_best_below_sentinel
         [OF assigned fit, where hw_max = 2147483647 and hw_min = "- 2147483648"
            and mx = destination_max_part_weights]
  have best: "feasible_block destination_max_part_weights destination_state 0 0 3"
    "below_sentinel 2147483647 destination_state 0 0 3"
    "\<forall>c. feasible_block destination_max_part_weights destination_state 0 0 c
           \<and> below_sentinel 2147483647 destination_state 0 0 c
          \<longrightarrow> no_worse_block destination_state 0 3 c"
    by (simp_all add: result)
  from best(3) others(1,2) below
  have "no_worse_block destination_state 0 3 1" "no_worse_block destination_state 0 3 2"
    by blast+
  with assigned fit vals result others best(1,2) show ?thesis
    by blast
qed

text \<open>
  Claim C7 as stated (the best feasible block is returned, and \<^verbatim>\<open>kInvalidPartition\<close> only
  when no block is feasible) fails when the penalty of a feasible block equals the
  sentinel. Node 0 (weight 1) is alone in block 0 and has the single-pin edge 0 of weight
  \<open>2^31 - 1\<close>; node 1 is in block 1. Block 1 is feasible for node 0 under the maximum
  part weight 2, its penalty equals \<open>hw_max = 2^31 - 1\<close> and its weight 1 is not below
  \<open>1 - 1\<close>: the result is \<^verbatim>\<open>kInvalidPartition\<close>.
\<close>

definition sentinel_hg :: Hypergraph where
  "sentinel_hg =
     \<lparr>initialNumNodes = 2, initialNumEdges = 1,
      nodeWeight = (\<lambda>_. 1), edgeWeight = (\<lambda>_. 2147483647),
      pins = (\<lambda>e. if e = 0 then [0] else []),
      incidentEdges = (\<lambda>u. if u = 0 then [0] else []),
      nodeIsEnabled = (\<lambda>u. u < 2), edgeIsEnabled = (\<lambda>e. e < 1)\<rparr>"

definition sentinel_state :: PartitionedHypergraph where
  "sentinel_state =
     initializeGainInformation 1 (\<lambda>u. [incidentEdges sentinel_hg u])
       (initializePartition
          (setOnlyNodePart (setOnlyNodePart (new_PartitionedHypergraph 2 sentinel_hg) 0 0) 1 1))"

theorem bestDestinationBlock_sentinel_counterexample:
  "partID sentinel_state 0 = Some 0
   \<and> moveToPenalty sentinel_state 0 1 = 2147483647
   \<and> moveToPenaltyRecomputed sentinel_state 0 1 = 2147483647
   \<and> feasible_block (\<lambda>_. 2) sentinel_state 0 0 1
   \<and> bestDestinationBlock 2147483647 (- 2147483648) (\<lambda>_. 2) sentinel_state 0
       = Some (None, - 2147483648)"
  by code_simp

section \<open>Initialisation of the gain cache\<close>

text \<open>
  The sums that the aggregation builds up over a list of edges: the weight of the edges
  with exactly one pin in the node's block, the weight of all edges, and the weight of
  the edges whose connectivity set contains block \<open>p\<close>.
\<close>

definition benefit_of_edges ::
  "PartitionedHypergraph \<Rightarrow> PartitionID option \<Rightarrow> HyperedgeID list \<Rightarrow> HyperedgeWeight" where
  "benefit_of_edges phg block_of_u es =
     sum_list (map (edgeWeight (hg phg))
       (filter (\<lambda>e. case block_of_u of Some b \<Rightarrow> pinCountInPart phg e b = 1 | None \<Rightarrow> False) es))"

definition weight_of_edges :: "PartitionedHypergraph \<Rightarrow> HyperedgeID list \<Rightarrow> HyperedgeWeight" where
  "weight_of_edges phg es = sum_list (map (edgeWeight (hg phg)) es)"

definition touching_weight ::
  "PartitionedHypergraph \<Rightarrow> PartitionID \<Rightarrow> HyperedgeID list \<Rightarrow> HyperedgeWeight" where
  "touching_weight phg p es =
     sum_list (map (edgeWeight (hg phg)) (filter (\<lambda>e. p \<in> set (connectivitySet phg e)) es))"

lemma subtract_on_blocks:
  "distinct bs \<Longrightarrow>
   fold (\<lambda>block l. l(block := wrap_int32 (l block - w))) bs l
     = (\<lambda>p. if p \<in> set bs then wrap_int32 (l p - w) else l p)"
  by (induction bs arbitrary: l) (auto simp: fun_eq_iff)

lemma distinct_connectivitySet: "distinct (connectivitySet phg e)"
  by (simp add: connectivitySet_def cs_connectivitySet_def)

lemma aggregate_step:
  "aggregate_contribution_of_he_for_vertex phg bo e (b, i, l)
     = ((if (case bo of Some p \<Rightarrow> pinCountInPart phg e p = 1 | None \<Rightarrow> False)
         then wrap_int32 (b + edgeWeight (hg phg) e) else b),
        wrap_int32 (i + edgeWeight (hg phg) e),
        \<lambda>p. if p \<in> set (connectivitySet phg e) then wrap_int32 (l p - edgeWeight (hg phg) e)
            else l p)"
  by (simp add: aggregate_contribution_of_he_for_vertex_def Let_def subtract_on_blocks
      distinct_connectivitySet)

lemma benefit_of_edges_Cons:
  "benefit_of_edges phg bo (e # es) = benefit_of_edges phg bo [e] + benefit_of_edges phg bo es"
  by (simp add: benefit_of_edges_def)

lemma weight_of_edges_Cons:
  "weight_of_edges phg (e # es) = weight_of_edges phg [e] + weight_of_edges phg es"
  by (simp add: weight_of_edges_def)

lemma touching_weight_Cons:
  "touching_weight phg p (e # es) = touching_weight phg p [e] + touching_weight phg p es"
  by (simp add: touching_weight_def)

text \<open>
  The aggregation over a list of edges, from accumulators that hold 32-bit values: every
  accumulator holds the 32-bit reduction of its exact sum.
\<close>

lemma aggregate_fold:
  assumes "fits_int32 b" "fits_int32 i" "\<forall>p. fits_int32 (l p)"
  shows "fold (aggregate_contribution_of_he_for_vertex phg bo) es (b, i, l)
           = (wrap_int32 (b + benefit_of_edges phg bo es),
              wrap_int32 (i + weight_of_edges phg es),
              \<lambda>p. wrap_int32 (l p - touching_weight phg p es))"
  using assms
proof (induction es arbitrary: b i l)
  case Nil
  then show ?case
    by (simp add: benefit_of_edges_def weight_of_edges_def touching_weight_def wrap_int32_id)
next
  case (Cons e es)
  let ?we = "edgeWeight (hg phg) e"
  define b1 where "b1 = (if (case bo of Some p \<Rightarrow> pinCountInPart phg e p = 1 | None \<Rightarrow> False)
                         then wrap_int32 (b + ?we) else b)"
  define l1 where "l1 = (\<lambda>p. if p \<in> set (connectivitySet phg e) then wrap_int32 (l p - ?we)
                              else l p)"
  have b1: "b1 = wrap_int32 (b + benefit_of_edges phg bo [e])"
    using Cons.prems(1) by (simp add: b1_def benefit_of_edges_def wrap_int32_id)
  have i1: "wrap_int32 (i + ?we) = wrap_int32 (i + weight_of_edges phg [e])"
    by (simp add: weight_of_edges_def)
  have l1: "l1 p = wrap_int32 (l p - touching_weight phg p [e])" for p
    using Cons.prems(3) by (simp add: l1_def touching_weight_def wrap_int32_id)
  have fits: "fits_int32 b1" "fits_int32 (wrap_int32 (i + ?we))" "\<forall>p. fits_int32 (l1 p)"
    by (simp_all add: b1 l1)
  have "fold (aggregate_contribution_of_he_for_vertex phg bo) (e # es) (b, i, l)
          = fold (aggregate_contribution_of_he_for_vertex phg bo) es (b1, wrap_int32 (i + ?we), l1)"
    by (simp add: aggregate_step b1_def l1_def)
  also have "\<dots> = (wrap_int32 (b1 + benefit_of_edges phg bo es),
                     wrap_int32 (wrap_int32 (i + ?we) + weight_of_edges phg es),
                     \<lambda>p. wrap_int32 (l1 p - touching_weight phg p es))"
    by (rule Cons.IH [OF fits])
  also have "\<dots> = (wrap_int32 (b + benefit_of_edges phg bo (e # es)),
                     wrap_int32 (i + weight_of_edges phg (e # es)),
                     \<lambda>p. wrap_int32 (l p - touching_weight phg p (e # es)))"
    unfolding b1 i1 l1 benefit_of_edges_Cons [of phg bo e es] weight_of_edges_Cons [of phg e es]
      touching_weight_Cons [of phg _ e es]
    by (simp add: add.assoc diff_diff_eq)
  finally show ?case .
qed

lemma aggregate_fold_zero:
  "fold (aggregate_contribution_of_he_for_vertex phg bo) es (0, 0, \<lambda>_. 0)
     = (wrap_int32 (benefit_of_edges phg bo es), wrap_int32 (weight_of_edges phg es),
        \<lambda>p. wrap_int32 (- touching_weight phg p es))"
  using aggregate_fold [of 0 0 "\<lambda>_. 0" phg bo es] by (simp add: fits_int32_def)

lemma store_penalties_low_fold:
  "distinct ps \<Longrightarrow>
   fold (\<lambda>p (s, l_move_to_penalty).
           (s\<lparr>move_to_penalty := (move_to_penalty s)
                 (penalty_index s u p := wrap_int32 (l_move_to_penalty p + iew))\<rparr>,
            l_move_to_penalty(p := 0))) ps (s, l)
     = (s\<lparr>move_to_penalty :=
             (\<lambda>i. if i \<in> penalty_index s u ` set ps
                  then wrap_int32 (l (i - u * k_blocks s) + iew) else move_to_penalty s i)\<rparr>,
        \<lambda>p. if p \<in> set ps then 0 else l p)"
proof (induction ps arbitrary: s l)
  case Nil
  show ?case by simp
next
  case (Cons p ps)
  let ?s1 = "s\<lparr>move_to_penalty := (move_to_penalty s)(penalty_index s u p := wrap_int32 (l p + iew))\<rparr>"
  have idx: "penalty_index ?s1 u q = penalty_index s u q" for q
    by (simp add: penalty_index_def)
  have img: "penalty_index ?s1 u ` set ps = penalty_index s u ` set ps"
    by (simp add: penalty_index_def)
  have "fst (fold (\<lambda>p (s, l_move_to_penalty).
           (s\<lparr>move_to_penalty := (move_to_penalty s)
                 (penalty_index s u p := wrap_int32 (l_move_to_penalty p + iew))\<rparr>,
            l_move_to_penalty(p := 0))) (p # ps) (s, l)) = fst (s\<lparr>move_to_penalty :=
             (\<lambda>i. if i \<in> penalty_index s u ` set (p # ps)
                  then wrap_int32 (l (i - u * k_blocks s) + iew) else move_to_penalty s i)\<rparr>,
        \<lambda>q. if q \<in> set (p # ps) then 0 else l q)"
    using Cons.prems
    apply (simp add: Cons.IH img)
    apply (rule arg_cong [where f = "\<lambda>f. s\<lparr>move_to_penalty := f\<rparr>"])
    apply (auto simp: fun_eq_iff penalty_index_def)
    done
  moreover have "snd (fold (\<lambda>p (s, l_move_to_penalty).
           (s\<lparr>move_to_penalty := (move_to_penalty s)
                 (penalty_index s u p := wrap_int32 (l_move_to_penalty p + iew))\<rparr>,
            l_move_to_penalty(p := 0))) (p # ps) (s, l)) = snd (s\<lparr>move_to_penalty :=
             (\<lambda>i. if i \<in> penalty_index s u ` set (p # ps)
                  then wrap_int32 (l (i - u * k_blocks s) + iew) else move_to_penalty s i)\<rparr>,
        \<lambda>q. if q \<in> set (p # ps) then 0 else l q)"
    using Cons.prems by (auto simp add: Cons.IH fun_eq_iff)
  ultimately show ?case
    by (rule prod_eqI)
qed

lemma store_penalties_high_fold:
  "distinct ps \<Longrightarrow>
   fold (\<lambda>p (s, ets_mtp).
           (s\<lparr>move_to_penalty := (move_to_penalty s)
                 (penalty_index s u p :=
                    wrap_int32
                      (sum_int32 (map (\<lambda>l_move_to_penalty. l_move_to_penalty p) ets_mtp) + iew))\<rparr>,
            map (\<lambda>l_move_to_penalty. l_move_to_penalty(p := 0)) ets_mtp)) ps (s, ets)
     = (s\<lparr>move_to_penalty :=
             (\<lambda>i. if i \<in> penalty_index s u ` set ps
                  then wrap_int32 (sum_int32 (map (\<lambda>l. l (i - u * k_blocks s)) ets) + iew)
                  else move_to_penalty s i)\<rparr>,
        map (\<lambda>l p. if p \<in> set ps then 0 else l p) ets)"
proof (induction ps arbitrary: s ets)
  case Nil
  show ?case by simp
next
  case (Cons p ps)
  let ?f = "\<lambda>p (s, ets_mtp).
           (s\<lparr>move_to_penalty := (move_to_penalty s)
                 (penalty_index s u p :=
                    wrap_int32
                      (sum_int32 (map (\<lambda>l_move_to_penalty. l_move_to_penalty p) ets_mtp) + iew))\<rparr>,
            map (\<lambda>l_move_to_penalty. l_move_to_penalty(p := 0)) ets_mtp)"
  let ?s1 = "s\<lparr>move_to_penalty := (move_to_penalty s)
               (penalty_index s u p := wrap_int32 (sum_int32 (map (\<lambda>l. l p) ets) + iew))\<rparr>"
  let ?ets1 = "map (\<lambda>l. l(p := 0)) ets"
  have img: "penalty_index ?s1 u ` set ps = penalty_index s u ` set ps"
    by (simp add: penalty_index_def)
  have other: "map (\<lambda>l. l q) ?ets1 = map (\<lambda>l. l q) ets" if "q \<in> set ps" for q
    using that Cons.prems by auto
  have step: "fold ?f (p # ps) (s, ets) = fold ?f ps (?s1, ?ets1)"
    by simp
  have "fst (fold ?f ps (?s1, ?ets1))
          = s\<lparr>move_to_penalty :=
               (\<lambda>i. if i \<in> penalty_index s u ` set (p # ps)
                    then wrap_int32 (sum_int32 (map (\<lambda>l. l (i - u * k_blocks s)) ets) + iew)
                    else move_to_penalty s i)\<rparr>"
    using Cons.prems
    apply (simp add: Cons.IH img del: map_map)
    apply (rule arg_cong [where f = "\<lambda>f. s\<lparr>move_to_penalty := f\<rparr>"])
    apply (rule ext)
    apply (auto simp: penalty_index_def other simp del: map_map)
    done
  moreover have "snd (fold ?f ps (?s1, ?ets1))
          = map (\<lambda>l q. if q \<in> set (p # ps) then 0 else l q) ets"
    using Cons.prems by (auto simp add: Cons.IH fun_eq_iff)
  ultimately show ?case
    unfolding step by (intro prod_eqI) simp_all
qed

lemma benefit_of_edges_append:
  "benefit_of_edges phg bo (xs @ ys) = benefit_of_edges phg bo xs + benefit_of_edges phg bo ys"
  by (simp add: benefit_of_edges_def)

lemma weight_of_edges_append:
  "weight_of_edges phg (xs @ ys) = weight_of_edges phg xs + weight_of_edges phg ys"
  by (simp add: weight_of_edges_def)

lemma touching_weight_append:
  "touching_weight phg p (xs @ ys) = touching_weight phg p xs + touching_weight phg p ys"
  by (simp add: touching_weight_def)

lemma benefit_of_edges_concat:
  "sum_list (map (benefit_of_edges phg bo) xss) = benefit_of_edges phg bo (concat xss)"
  by (induction xss) (simp_all add: benefit_of_edges_append, simp add: benefit_of_edges_def)

lemma weight_of_edges_concat:
  "sum_list (map (weight_of_edges phg) xss) = weight_of_edges phg (concat xss)"
  by (induction xss) (simp_all add: weight_of_edges_append, simp add: weight_of_edges_def)

lemma touching_weight_concat:
  "sum_list (map (touching_weight phg p) xss) = touching_weight phg p (concat xss)"
  by (induction xss) (simp_all add: touching_weight_append, simp add: touching_weight_def)

lemma sum_list_filter_mset_cong:
  assumes "mset xs = mset ys"
  shows "sum_list (map f (filter P xs)) = (sum_list (map f (filter P ys)) :: int)"
proof -
  have "mset (map f (filter P xs)) = mset (map f (filter P ys))"
    using assms by simp
  then have "sum_mset (mset (map f (filter P xs))) = sum_mset (mset (map f (filter P ys)))"
    by simp
  then show ?thesis
    by (simp only: sum_mset_sum_list)
qed

lemma benefit_of_edges_mset:
  "mset xs = mset ys \<Longrightarrow> benefit_of_edges phg bo xs = benefit_of_edges phg bo ys"
  unfolding benefit_of_edges_def by (rule sum_list_filter_mset_cong)

lemma weight_of_edges_mset:
  "mset xs = mset ys \<Longrightarrow> weight_of_edges phg xs = weight_of_edges phg ys"
  using sum_list_filter_mset_cong [of xs ys "edgeWeight (hg phg)" "\<lambda>_. True"]
  by (simp add: weight_of_edges_def)

lemma touching_weight_mset:
  "mset xs = mset ys \<Longrightarrow> touching_weight phg p xs = touching_weight phg p ys"
  unfolding touching_weight_def by (rule sum_list_filter_mset_cong)

definition vertex_gain_stored :: "PartitionedHypergraph \<Rightarrow> HypernodeID \<Rightarrow> PartitionedHypergraph" where
  "vertex_gain_stored s u =
     s\<lparr>move_from_benefit := (move_from_benefit s)
          (u := wrap_int32 (benefit_of_edges s (partID s u) (incidentEdges (hg s) u))),
       move_to_penalty :=
         (\<lambda>i. if i \<in> penalty_index s u ` {0..<k_blocks s}
              then wrap_int32
                     (weight_of_edges s (incidentEdges (hg s) u)
                      - touching_weight s (i - u * k_blocks s) (incidentEdges (hg s) u))
              else move_to_penalty s i)\<rparr>"

lemma gain_of_low_degree_vertex_closed:
  "gain_of_low_degree_vertex s u (\<lambda>_. 0)
     = (vertex_gain_stored s u,
        \<lambda>p. if p < k_blocks s then 0
            else wrap_int32 (- touching_weight s p (incidentEdges (hg s) u)))"
proof -
  let ?I = "incidentEdges (hg s) u"
  let ?s1 = "s\<lparr>move_from_benefit := (move_from_benefit s)
               (u := wrap_int32 (benefit_of_edges s (partID s u) ?I))\<rparr>"
  have "gain_of_low_degree_vertex s u (\<lambda>_. 0)
          = store_penalties_low u (wrap_int32 (weight_of_edges s ?I))
              (?s1, \<lambda>p. wrap_int32 (- touching_weight s p ?I))"
    by (simp add: gain_of_low_degree_vertex_def aggregate_fold_zero)
  also have "\<dots> = (?s1\<lparr>move_to_penalty :=
                        (\<lambda>i. if i \<in> penalty_index ?s1 u ` set [0..<k_blocks ?s1]
                             then wrap_int32
                                    (wrap_int32 (- touching_weight s (i - u * k_blocks ?s1) ?I)
                                     + wrap_int32 (weight_of_edges s ?I))
                             else move_to_penalty ?s1 i)\<rparr>,
                     \<lambda>p. if p \<in> set [0..<k_blocks ?s1] then 0
                         else wrap_int32 (- touching_weight s p ?I))"
    unfolding store_penalties_low_def fst_conv
    by (rule store_penalties_low_fold) simp
  also have "\<dots> = (vertex_gain_stored s u,
                     \<lambda>p. if p < k_blocks s then 0 else wrap_int32 (- touching_weight s p ?I))"
    by (simp add: vertex_gain_stored_def penalty_index_def fun_eq_iff)
  finally show ?thesis .
qed

lemma zip_replicate_length:
  "length xs = n \<Longrightarrow> zip xs (replicate n z) = map (\<lambda>x. (x, z)) xs"
  by (induction xs arbitrary: n) auto

lemma sum_list_uminus_int: "sum_list (map (\<lambda>x. - f x) xs) = - (sum_list (map f xs) :: int)"
  by (induction xs) simp_all

lemma gain_of_high_degree_vertex_closed:
  assumes "valid_work (hg s) T u work"
  shows "gain_of_high_degree_vertex s u work (replicate T (\<lambda>_. 0))
           = (vertex_gain_stored s u,
              map (\<lambda>hes p. if p < k_blocks s then 0 else wrap_int32 (- touching_weight s p hes))
                work)"
proof -
  from assms have len: "length work = T"
    and ms: "mset (concat work) = mset (incidentEdges (hg s) u)"
    by (simp_all add: valid_work_def)
  let ?I = "incidentEdges (hg s) u"
  let ?locals = "map (\<lambda>(hes, l). fold (aggregate_contribution_of_he_for_vertex s (partID s u))
                        hes (0, 0, l)) (zip work (replicate T (\<lambda>_. 0)))"
  have locals: "?locals = map (\<lambda>hes. (wrap_int32 (benefit_of_edges s (partID s u) hes),
                                   wrap_int32 (weight_of_edges s hes),
                                   \<lambda>p. wrap_int32 (- touching_weight s p hes))) work"
    by (simp add: zip_replicate_length [OF len] aggregate_fold_zero o_def)
  have b: "sum_int32 (map fst ?locals) = wrap_int32 (benefit_of_edges s (partID s u) ?I)"
    unfolding locals sum_int32_closed
    by (simp add: o_def wrap_int32_sum_list_map benefit_of_edges_concat
        benefit_of_edges_mset [OF ms])
  have w: "sum_int32 (map (\<lambda>r. fst (snd r)) ?locals) = wrap_int32 (weight_of_edges s ?I)"
    unfolding locals sum_int32_closed
    by (simp add: o_def wrap_int32_sum_list_map weight_of_edges_concat
        weight_of_edges_mset [OF ms])
  have l: "map (\<lambda>r. snd (snd r)) ?locals
             = map (\<lambda>hes p. wrap_int32 (- touching_weight s p hes)) work"
    unfolding locals by (simp add: o_def)
  have t: "sum_int32 (map (\<lambda>l. l q) (map (\<lambda>hes p. wrap_int32 (- touching_weight s p hes)) work))
             = wrap_int32 (- touching_weight s q ?I)" for q
    unfolding sum_int32_closed
    by (simp add: o_def wrap_int32_sum_list_map sum_list_uminus_int touching_weight_concat
        touching_weight_mset [OF ms])
  let ?s1 = "s\<lparr>move_from_benefit := (move_from_benefit s)
               (u := wrap_int32 (benefit_of_edges s (partID s u) ?I))\<rparr>"
  let ?ets1 = "map (\<lambda>hes p. wrap_int32 (- touching_weight s p hes)) work"
  have "gain_of_high_degree_vertex s u work (replicate T (\<lambda>_. 0))
          = store_penalties_high u (wrap_int32 (weight_of_edges s ?I)) (?s1, ?ets1)"
    unfolding gain_of_high_degree_vertex_def Let_def b w l ..
  also have "\<dots> = (?s1\<lparr>move_to_penalty :=
                        (\<lambda>i. if i \<in> penalty_index ?s1 u ` set [0..<k_blocks ?s1]
                             then wrap_int32
                                    (sum_int32 (map (\<lambda>l. l (i - u * k_blocks ?s1)) ?ets1)
                                     + wrap_int32 (weight_of_edges s ?I))
                             else move_to_penalty ?s1 i)\<rparr>,
                     map (\<lambda>l p. if p \<in> set [0..<k_blocks ?s1] then 0 else l p) ?ets1)"
    unfolding store_penalties_high_def fst_conv
    by (rule store_penalties_high_fold) simp
  also have "\<dots> = (vertex_gain_stored s u,
                     map (\<lambda>hes p. if p < k_blocks s then 0
                                  else wrap_int32 (- touching_weight s p hes)) work)"
    unfolding t
    by (simp add: vertex_gain_stored_def penalty_index_def fun_eq_iff o_def)
  finally show ?thesis .
qed

lemma high_degree_path_eq_low_degree_path:
  "valid_work (hg s) T u work \<Longrightarrow>
   fst (gain_of_high_degree_vertex s u work (replicate T (\<lambda>_. 0)))
     = fst (gain_of_low_degree_vertex s u (\<lambda>_. 0))"
  by (simp add: gain_of_high_degree_vertex_closed gain_of_low_degree_vertex_closed)

definition partition_of ::
  "PartitionedHypergraph \<Rightarrow>
     nat \<times> Hypergraph \<times> (PartitionID \<Rightarrow> HypernodeWeight) \<times> (HypernodeID \<Rightarrow> PartitionID option)
       \<times> PinCountInPart \<times> ConnectivitySets \<times> (HyperedgeID \<Rightarrow> bool)" where
  "partition_of s =
     (k_blocks s, hg s, part_weights s, part_ids s, pins_in_part s, connectivity_set s,
      pin_count_update_ownership s)"

definition connectivity_consistent :: "PartitionedHypergraph \<Rightarrow> HyperedgeID \<Rightarrow> bool" where
  "connectivity_consistent phg e \<longleftrightarrow>
     connectivity_set phg e = {p. p < k_blocks phg \<and> 1 \<le> pinCountInPart phg e p}"

definition gain_cache_entries_ok ::
  "PartitionedHypergraph \<Rightarrow> PartitionedHypergraph \<Rightarrow> HypernodeID \<Rightarrow> bool" where
  "gain_cache_entries_ok s0 s u \<longleftrightarrow>
     move_from_benefit s u
       = wrap_int32 (benefit_of_edges s0 (partID s0 u) (incidentEdges (hg s0) u))
     \<and> (\<forall>p < k_blocks s0.
           move_to_penalty s (u * k_blocks s0 + p)
             = wrap_int32 (weight_of_edges s0 (incidentEdges (hg s0) u)
                           - touching_weight s0 p (incidentEdges (hg s0) u)))"

lemma partition_of_fields:
  assumes "partition_of s = partition_of s'"
  shows "k_blocks s = k_blocks s'" "hg s = hg s'" "part_weights s = part_weights s'"
    "part_ids s = part_ids s'" "pins_in_part s = pins_in_part s'"
    "connectivity_set s = connectivity_set s'"
    "pin_count_update_ownership s = pin_count_update_ownership s'"
  using assms by (simp_all add: partition_of_def)

lemma partition_of_sums:
  assumes "partition_of s = partition_of s'"
  shows "benefit_of_edges s = benefit_of_edges s'" "weight_of_edges s = weight_of_edges s'"
    "touching_weight s = touching_weight s'" "partID s = partID s'"
  by (intro ext; simp add: partition_of_fields [OF assms] benefit_of_edges_def
      weight_of_edges_def touching_weight_def partID_def pinCountInPart_def
      connectivitySet_def cong: option.case_cong)+

lemma partition_of_vertex_gain_stored [simp]:
  "partition_of (vertex_gain_stored s u) = partition_of s"
  by (simp add: partition_of_def vertex_gain_stored_def)

lemma penalty_slot_unique:
  assumes "v * k + p = u * k + q" "p < k" "q < k"
  shows "v = u \<and> p = (q::nat)"
proof -
  have "(v * k + p) div k = v" "(u * k + q) div k = u"
    using assms(2,3) by simp_all
  with assms(1) have "v = u" by simp
  with assms(1) show ?thesis by simp
qed

lemma vertex_gain_stored_ok:
  assumes "partition_of s = partition_of s0"
  shows "gain_cache_entries_ok s0 (vertex_gain_stored s u) u"
  using partition_of_fields [OF assms] partition_of_sums [OF assms]
  by (simp add: gain_cache_entries_ok_def vertex_gain_stored_def penalty_index_def)

lemma vertex_gain_stored_other:
  assumes same: "partition_of s = partition_of s0" and ok: "gain_cache_entries_ok s0 s v"
    and neq: "v \<noteq> u"
  shows "gain_cache_entries_ok s0 (vertex_gain_stored s u) v"
proof -
  have k: "k_blocks s = k_blocks s0"
    using partition_of_fields [OF same] by simp
  have "v * k_blocks s0 + p \<notin> penalty_index s u ` {0..<k_blocks s}" if "p < k_blocks s0" for p
  proof
    assume "v * k_blocks s0 + p \<in> penalty_index s u ` {0..<k_blocks s}"
    then obtain q where "q \<in> {0..<k_blocks s}" "v * k_blocks s0 + p = penalty_index s u q"
      by (elim imageE)
    then have "q < k_blocks s0" "v * k_blocks s0 + p = u * k_blocks s0 + q"
      by (simp_all add: penalty_index_def k)
    with that penalty_slot_unique have "v = u" by blast
    with neq show False by simp
  qed
  with ok neq show ?thesis
    by (simp add: gain_cache_entries_ok_def vertex_gain_stored_def)
qed

lemma touching_weight_outside:
  assumes "\<forall>e \<in> set es. \<forall>q \<in> set (connectivitySet s e). q < k_blocks s" "\<not> p < k_blocks s"
  shows "touching_weight s p es = 0"
proof -
  have "filter (\<lambda>e. p \<in> set (connectivitySet s e)) es = []"
    using assms by (auto simp: filter_empty_conv)
  then show ?thesis
    by (simp add: touching_weight_def)
qed

definition blocks_in_range :: "PartitionedHypergraph \<Rightarrow> HypernodeID \<Rightarrow> bool" where
  "blocks_in_range s u \<longleftrightarrow>
     (\<forall>e \<in> set (incidentEdges (hg s) u). \<forall>q \<in> set (connectivitySet s e). q < k_blocks s)"

lemma low_degree_vertex_result:
  assumes "blocks_in_range s u"
  shows "gain_of_low_degree_vertex s u (\<lambda>_. 0) = (vertex_gain_stored s u, \<lambda>_. 0)"
  using assms touching_weight_outside [of "incidentEdges (hg s) u" s]
  by (auto simp: gain_of_low_degree_vertex_closed blocks_in_range_def fun_eq_iff)

lemma high_degree_vertex_result:
  assumes "blocks_in_range s u" "valid_work (hg s) T u work"
  shows "gain_of_high_degree_vertex s u work (replicate T (\<lambda>_. 0))
           = (vertex_gain_stored s u, replicate T (\<lambda>_. 0))"
proof -
  from assms(2) have len: "length work = T"
    and ms: "mset (concat work) = mset (incidentEdges (hg s) u)"
    by (simp_all add: valid_work_def)
  from ms have "set (concat work) = set (incidentEdges (hg s) u)"
    by (rule mset_eq_setD)
  then have sub: "\<forall>e \<in> set hes. \<forall>q \<in> set (connectivitySet s e). q < k_blocks s"
    if "hes \<in> set work" for hes
    using that assms(1) by (auto simp: blocks_in_range_def)
  have "map (\<lambda>hes p. if p < k_blocks s then 0 else wrap_int32 (- touching_weight s p hes)) work
          = map (\<lambda>hes. (\<lambda>_. 0)) work"
    using sub touching_weight_outside by (intro map_cong refl) (auto simp: fun_eq_iff)
  also have "\<dots> = replicate T (\<lambda>_. 0)"
    using len by (simp add: map_replicate_const)
  finally show ?thesis
    by (simp add: gain_of_high_degree_vertex_closed [OF assms(2)])
qed

lemma blocks_in_range_cong:
  assumes "partition_of s = partition_of s0"
  shows "blocks_in_range s u = blocks_in_range s0 u"
  using partition_of_fields [OF assms]
  by (simp add: blocks_in_range_def connectivitySet_def)

lemma vertex_gain_stored_all:
  assumes same: "partition_of s = partition_of s0"
    and ok: "\<forall>v \<in> D. gain_cache_entries_ok s0 s v"
  shows "\<forall>v \<in> insert u D. gain_cache_entries_ok s0 (vertex_gain_stored s u) v"
  using vertex_gain_stored_ok [OF same, of u] vertex_gain_stored_other [OF same _, of _ u] ok
  by (cases "u \<in> D") auto

lemma gain_stage1_fold:
  assumes "0 < T"
    and "\<forall>u \<in> set us. nodeIsEnabled (hg s0) u \<longrightarrow> blocks_in_range s0 u"
    and "partition_of s = partition_of s0"
    and "\<forall>v \<in> D. gain_cache_entries_ok s0 s v"
  shows "\<exists>s'. fold gain_stage1_step us (s, replicate T (\<lambda>_. 0), high)
                 = (s', replicate T (\<lambda>_. 0),
                    high @ filter (\<lambda>u. nodeIsEnabled (hg s0) u
                                       \<and> \<not> nodeDegree (hg s0) u \<le> HIGH_DEGREE_THRESHOLD) us)
               \<and> partition_of s' = partition_of s0
               \<and> (\<forall>v \<in> D \<union> {u \<in> set us. nodeIsEnabled (hg s0) u
                                    \<and> nodeDegree (hg s0) u \<le> HIGH_DEGREE_THRESHOLD}.
                     gain_cache_entries_ok s0 s' v)"
  using assms(2-)
proof (induction us arbitrary: s high D)
  case Nil
  then show ?case by simp
next
  case (Cons u us)
  let ?low = "\<lambda>u. nodeIsEnabled (hg s0) u \<and> nodeDegree (hg s0) u \<le> HIGH_DEGREE_THRESHOLD"
  let ?high = "\<lambda>u. nodeIsEnabled (hg s0) u \<and> \<not> nodeDegree (hg s0) u \<le> HIGH_DEGREE_THRESHOLD"
  have hg: "hg s = hg s0"
    using partition_of_fields [OF Cons.prems(2)] by simp
  have zero: "replicate T (\<lambda>_. 0::int) ! 0 = (\<lambda>_. 0)"
    "(replicate T (\<lambda>_. 0::int))[0 := (\<lambda>_. 0)] = replicate T (\<lambda>_. 0)"
    using \<open>0 < T\<close> by (simp_all add: list_update_same_conv)
  have rng: "\<forall>u \<in> set us. nodeIsEnabled (hg s0) u \<longrightarrow> blocks_in_range s0 u"
    using Cons.prems(1) by simp
  show ?case
  proof (cases "?low u")
    case True
    then have "blocks_in_range s u"
      using Cons.prems(1) by (simp add: blocks_in_range_cong [OF Cons.prems(2)])
    then have step: "gain_stage1_step u (s, replicate T (\<lambda>_. 0), high)
                 = (vertex_gain_stored s u, replicate T (\<lambda>_. 0), high)"
      using True by (simp add: gain_stage1_step_def hg zero low_degree_vertex_result)
    have same: "partition_of (vertex_gain_stored s u) = partition_of s0"
      using Cons.prems(2) by simp
    have ok: "\<forall>v \<in> insert u D. gain_cache_entries_ok s0 (vertex_gain_stored s u) v"
      by (rule vertex_gain_stored_all [OF Cons.prems(2,3)])
    from Cons.IH [OF rng same ok, of high] obtain s'
      where r: "fold gain_stage1_step us (vertex_gain_stored s u, replicate T (\<lambda>_. 0), high)
                  = (s', replicate T (\<lambda>_. 0), high @ filter ?high us)"
        and p: "partition_of s' = partition_of s0"
        and g: "\<forall>v \<in> insert u D \<union> {u \<in> set us. ?low u}. gain_cache_entries_ok s0 s' v"
      by blast
    have "fold gain_stage1_step (u # us) (s, replicate T (\<lambda>_. 0), high)
            = (s', replicate T (\<lambda>_. 0), high @ filter ?high (u # us))"
      using True by (simp add: step r)
    moreover have "\<forall>v \<in> D \<union> {v \<in> set (u # us). ?low v}. gain_cache_entries_ok s0 s' v"
      using g by auto
    ultimately show ?thesis
      using p by blast
  next
    case False
    show ?thesis
    proof (cases "nodeIsEnabled (hg s0) u")
      case enabled: True
      with False have step: "gain_stage1_step u (s, replicate T (\<lambda>_. 0), high)
                 = (s, replicate T (\<lambda>_. 0), high @ [u])"
        by (simp add: gain_stage1_step_def hg)
      from Cons.IH [OF rng Cons.prems(2,3), of "high @ [u]"] obtain s'
        where r: "fold gain_stage1_step us (s, replicate T (\<lambda>_. 0), high @ [u])
                    = (s', replicate T (\<lambda>_. 0), (high @ [u]) @ filter ?high us)"
          and p: "partition_of s' = partition_of s0"
          and g: "\<forall>v \<in> D \<union> {u \<in> set us. ?low u}. gain_cache_entries_ok s0 s' v"
        by blast
      have "fold gain_stage1_step (u # us) (s, replicate T (\<lambda>_. 0), high)
              = (s', replicate T (\<lambda>_. 0), high @ filter ?high (u # us))"
        using False enabled by (simp add: step r)
      moreover have "\<forall>v \<in> D \<union> {v \<in> set (u # us). ?low v}. gain_cache_entries_ok s0 s' v"
        using g False by auto
      ultimately show ?thesis
        using p by blast
    next
      case disabled: False
      then have step: "gain_stage1_step u (s, replicate T (\<lambda>_. 0), high)
                 = (s, replicate T (\<lambda>_. 0), high)"
        by (simp add: gain_stage1_step_def hg)
      from Cons.IH [OF rng Cons.prems(2,3), of high] obtain s'
        where r: "fold gain_stage1_step us (s, replicate T (\<lambda>_. 0), high)
                    = (s', replicate T (\<lambda>_. 0), high @ filter ?high us)"
          and p: "partition_of s' = partition_of s0"
          and g: "\<forall>v \<in> D \<union> {u \<in> set us. ?low u}. gain_cache_entries_ok s0 s' v"
        by blast
      have "fold gain_stage1_step (u # us) (s, replicate T (\<lambda>_. 0), high)
              = (s', replicate T (\<lambda>_. 0), high @ filter ?high (u # us))"
        using disabled by (simp add: step r)
      moreover have "\<forall>v \<in> D \<union> {v \<in> set (u # us). ?low v}. gain_cache_entries_ok s0 s' v"
        using g disabled by auto
      ultimately show ?thesis
        using p by blast
    qed
  qed
qed

lemma gain_stage2_fold:
  assumes "\<forall>u \<in> set hs. blocks_in_range s0 u \<and> valid_work (hg s0) T u (work u)"
    and "partition_of s = partition_of s0"
    and "\<forall>v \<in> D. gain_cache_entries_ok s0 s v"
  shows "\<exists>s'. fold (\<lambda>u (s, ets). gain_of_high_degree_vertex s u (work u) ets) hs
                 (s, replicate T (\<lambda>_. 0))
                 = (s', replicate T (\<lambda>_. 0))
               \<and> partition_of s' = partition_of s0
               \<and> (\<forall>v \<in> D \<union> set hs. gain_cache_entries_ok s0 s' v)"
  using assms
proof (induction hs arbitrary: s D)
  case Nil
  then show ?case by simp
next
  case (Cons u hs)
  have hg: "hg s = hg s0"
    using partition_of_fields [OF Cons.prems(2)] by simp
  have "blocks_in_range s u" "valid_work (hg s) T u (work u)"
    using Cons.prems(1) by (simp_all add: blocks_in_range_cong [OF Cons.prems(2)] hg)
  then have step: "gain_of_high_degree_vertex s u (work u) (replicate T (\<lambda>_. 0))
                     = (vertex_gain_stored s u, replicate T (\<lambda>_. 0))"
    by (rule high_degree_vertex_result)
  have rest: "\<forall>u \<in> set hs. blocks_in_range s0 u \<and> valid_work (hg s0) T u (work u)"
    using Cons.prems(1) by simp
  have same: "partition_of (vertex_gain_stored s u) = partition_of s0"
    using Cons.prems(2) by simp
  have ok: "\<forall>v \<in> insert u D. gain_cache_entries_ok s0 (vertex_gain_stored s u) v"
    by (rule vertex_gain_stored_all [OF Cons.prems(2,3)])
  from Cons.IH [OF rest same ok] obtain s'
    where r: "fold (\<lambda>u (s, ets). gain_of_high_degree_vertex s u (work u) ets) hs
                (vertex_gain_stored s u, replicate T (\<lambda>_. 0)) = (s', replicate T (\<lambda>_. 0))"
      and p: "partition_of s' = partition_of s0"
      and g: "\<forall>v \<in> insert u D \<union> set hs. gain_cache_entries_ok s0 s' v"
    by blast
  have "fold (\<lambda>u (s, ets). gain_of_high_degree_vertex s u (work u) ets) (u # hs)
          (s, replicate T (\<lambda>_. 0)) = (s', replicate T (\<lambda>_. 0))"
    by (simp add: step r)
  moreover have "\<forall>v \<in> D \<union> set (u # hs). gain_cache_entries_ok s0 s' v"
    using g by auto
  ultimately show ?case
    using p by blast
qed

lemma sum_list_minus_filter:
  "sum_list (map f xs) - sum_list (map f (filter P xs))
     = (sum_list (map f (filter (\<lambda>x. \<not> P x) xs)) :: int)"
  by (induction xs) auto

lemma connectivity_consistent_set:
  assumes "connectivity_consistent s e"
  shows "set (connectivitySet s e) = {p. p < k_blocks s \<and> 1 \<le> pinCountInPart s e p}"
proof -
  have "finite {p. p < k_blocks s \<and> 1 \<le> pinCountInPart s e p}"
    by simp
  then show ?thesis
    using assms
    by (simp add: connectivity_consistent_def connectivitySet_def cs_connectivitySet_def)
qed

lemma benefit_of_edges_recomputed:
  "benefit_of_edges s (partID s u) (incidentEdges (hg s) u) = moveFromBenefitRecomputed s u"
  by (cases "partID s u") (simp_all add: benefit_of_edges_def moveFromBenefitRecomputed_def)

lemma penalty_of_edges_recomputed:
  assumes "\<forall>e \<in> set (incidentEdges (hg s) u). connectivity_consistent s e" "p < k_blocks s"
  shows "weight_of_edges s (incidentEdges (hg s) u) - touching_weight s p (incidentEdges (hg s) u)
           = moveToPenaltyRecomputed s u p"
proof -
  have "filter (\<lambda>e. \<not> p \<in> set (connectivitySet s e)) (incidentEdges (hg s) u)
          = filter (\<lambda>e. pinCountInPart s e p = 0) (incidentEdges (hg s) u)"
    using assms by (intro filter_cong refl) (auto simp: connectivity_consistent_set)
  then show ?thesis
    by (simp add: weight_of_edges_def touching_weight_def moveToPenaltyRecomputed_def
        sum_list_minus_filter)
qed

lemma connectivity_consistent_in_range:
  assumes "\<forall>e \<in> set (incidentEdges (hg s) u). connectivity_consistent s e"
  shows "blocks_in_range s u"
  using assms by (auto simp: blocks_in_range_def connectivity_consistent_set)

lemma recomputed_cong:
  assumes "partition_of s = partition_of s0"
  shows "moveFromBenefitRecomputed s = moveFromBenefitRecomputed s0"
    "moveToPenaltyRecomputed s = moveToPenaltyRecomputed s0"
  by (intro ext; simp add: partition_of_fields [OF assms] moveFromBenefitRecomputed_def
      moveToPenaltyRecomputed_def partID_def pinCountInPart_def cong: option.case_cong)+

lemma initializeGainInformation_entries:
  assumes threads: "0 < T"
    and conn: "\<forall>u < initialNumNodes (hg phg). nodeIsEnabled (hg phg) u \<longrightarrow>
                 (\<forall>e \<in> set (incidentEdges (hg phg) u). connectivity_consistent phg e)"
    and work: "\<forall>u < initialNumNodes (hg phg).
                 nodeIsEnabled (hg phg) u \<and> HIGH_DEGREE_THRESHOLD < nodeDegree (hg phg) u \<longrightarrow>
                 valid_work (hg phg) T u (work u)"
  shows "\<exists>s. initializeGainInformation T work phg = s\<lparr>is_gain_cache_initialized := True\<rparr>
             \<and> partition_of s = partition_of phg
             \<and> (\<forall>u < initialNumNodes (hg phg). nodeIsEnabled (hg phg) u \<longrightarrow>
                   gain_cache_entries_ok phg s u)"
proof -
  let ?n = "initialNumNodes (hg phg)"
  let ?low = "\<lambda>u. nodeIsEnabled (hg phg) u \<and> nodeDegree (hg phg) u \<le> HIGH_DEGREE_THRESHOLD"
  let ?high = "\<lambda>u. nodeIsEnabled (hg phg) u \<and> \<not> nodeDegree (hg phg) u \<le> HIGH_DEGREE_THRESHOLD"
  have rng: "\<forall>u \<in> set [0..<?n]. nodeIsEnabled (hg phg) u \<longrightarrow> blocks_in_range phg u"
    using conn connectivity_consistent_in_range by simp
  have none: "\<forall>v \<in> {}. gain_cache_entries_ok phg phg v"
    by simp
  from gain_stage1_fold [OF threads rng refl none, of "[]"] obtain s1
    where r1: "fold gain_stage1_step [0..<?n] (phg, replicate T (\<lambda>_. 0), [])
                 = (s1, replicate T (\<lambda>_. 0), filter ?high [0..<?n])"
      and p1: "partition_of s1 = partition_of phg"
      and g1: "\<forall>v \<in> {u \<in> set [0..<?n]. ?low u}. gain_cache_entries_ok phg s1 v"
    by auto
  have hs: "\<forall>u \<in> set (filter ?high [0..<?n]).
              blocks_in_range phg u \<and> valid_work (hg phg) T u (work u)"
    using rng work by auto
  from gain_stage2_fold [OF hs p1 g1] obtain s2
    where r2: "fold (\<lambda>u (s, ets). gain_of_high_degree_vertex s u (work u) ets)
                 (filter ?high [0..<?n]) (s1, replicate T (\<lambda>_. 0))
                 = (s2, replicate T (\<lambda>_. 0))"
      and p2: "partition_of s2 = partition_of phg"
      and g2: "\<forall>v \<in> {u \<in> set [0..<?n]. ?low u} \<union> set (filter ?high [0..<?n]).
                 gain_cache_entries_ok phg s2 v"
    by blast
  have "initializeGainInformation T work phg = s2\<lparr>is_gain_cache_initialized := True\<rparr>"
    by (simp add: initializeGainInformation_def r1 r2)
  moreover have "\<forall>u < ?n. nodeIsEnabled (hg phg) u \<longrightarrow> gain_cache_entries_ok phg s2 u"
    using g2 by auto
  ultimately show ?thesis
    using p2 by blast
qed

text \<open>
  The weights of the edges incident to a node fit when none is negative and their sum is
  at most \<open>2^31 - 1\<close>; then no sum over some of these edges leaves the 32-bit range.
\<close>

definition incident_weights_fit :: "Hypergraph \<Rightarrow> HypernodeID \<Rightarrow> bool" where
  "incident_weights_fit h u \<longleftrightarrow>
     list_all (\<lambda>e. 0 \<le> edgeWeight h e) (incidentEdges h u)
     \<and> sum_list (map (edgeWeight h) (incidentEdges h u)) \<le> 2147483647"

lemma sum_list_filter_bounds:
  assumes "\<forall>x \<in> set xs. 0 \<le> f x"
  shows "0 \<le> sum_list (map f (filter P xs))"
    and "sum_list (map f (filter P xs)) \<le> (sum_list (map f xs) :: int)"
  using assms by (induction xs) (auto simp: add_increasing)

lemma incident_weights_fit_filter:
  assumes "incident_weights_fit h u"
  shows "fits_int32 (sum_list (map (edgeWeight h) (filter P (incidentEdges h u))))"
proof -
  from assms have nonneg: "\<forall>e \<in> set (incidentEdges h u). 0 \<le> edgeWeight h e"
    and total: "sum_list (map (edgeWeight h) (incidentEdges h u)) \<le> 2147483647"
    by (simp_all add: incident_weights_fit_def list_all_iff)
  from sum_list_filter_bounds [OF nonneg, of P] total show ?thesis
    unfolding fits_int32_def by linarith
qed

lemma recomputed_fit:
  assumes "incident_weights_fit (hg s) u"
  shows "wrap_int32 (moveFromBenefitRecomputed s u) = moveFromBenefitRecomputed s u"
    and "wrap_int32 (moveToPenaltyRecomputed s u p) = moveToPenaltyRecomputed s u p"
proof -
  show "wrap_int32 (moveFromBenefitRecomputed s u) = moveFromBenefitRecomputed s u"
  proof (cases "partID s u")
    case None
    then show ?thesis
      by (simp add: moveFromBenefitRecomputed_def)
  next
    case (Some b)
    then show ?thesis
      using incident_weights_fit_filter [OF assms]
      by (simp add: moveFromBenefitRecomputed_def wrap_int32_id)
  qed
  show "wrap_int32 (moveToPenaltyRecomputed s u p) = moveToPenaltyRecomputed s u p"
    using incident_weights_fit_filter [OF assms]
    by (simp add: moveToPenaltyRecomputed_def wrap_int32_id)
qed

text \<open>
  Claim C5. The partition data must be consistent where the function reads it (the
  source: ``requires that pin counts are already initialized and reflect the current
  state of the partition''): the connectivity set of every edge incident to an enabled
  node holds exactly the blocks \<open>p < k\<close> with \<open>pin_count(e, p) \<ge> 1\<close>. There is at least
  one thread, and the edges of every node above the degree threshold are distributed over
  the threads so that each is visited once. The weights of the edges incident to an
  enabled node are not negative and their sum is at most \<open>2^31 - 1\<close>, so that no
  accumulator overflows. Then, after \<open>initializeGainInformation\<close>, the cache is marked
  initialised, nothing but the cache has changed, and for every enabled node \<open>v\<close> the
  stored benefit is the sum of \<open>edge_weight(e)\<close> over the incident edges with
  \<open>pin_count(e, part_id(v)) = 1\<close> and, for every block \<open>p\<close>, the stored penalty is that sum
  over the incident edges with \<open>pin_count(e, p) = 0\<close>. Moreover the parallel reduction,
  under any valid distribution over any number of threads, stores for \<open>v\<close> exactly what
  the sequential path stores.
\<close>

theorem initializeGainInformation_correct:
  assumes threads: "0 < T"
    and conn: "\<forall>u < initialNumNodes (hg phg). nodeIsEnabled (hg phg) u \<longrightarrow>
                 (\<forall>e \<in> set (incidentEdges (hg phg) u). connectivity_consistent phg e)"
    and work: "\<forall>u < initialNumNodes (hg phg).
                 nodeIsEnabled (hg phg) u \<and> HIGH_DEGREE_THRESHOLD < nodeDegree (hg phg) u \<longrightarrow>
                 valid_work (hg phg) T u (work u)"
    and fit: "\<forall>u < initialNumNodes (hg phg). nodeIsEnabled (hg phg) u \<longrightarrow>
                 incident_weights_fit (hg phg) u"
    and v: "v < initialNumNodes (hg phg)" "nodeIsEnabled (hg phg) v"
  shows "is_gain_cache_initialized (initializeGainInformation T work phg)
         \<and> partition_of (initializeGainInformation T work phg) = partition_of phg
         \<and> moveFromBenefit (initializeGainInformation T work phg) v
             = moveFromBenefitRecomputed (initializeGainInformation T work phg) v
         \<and> (\<forall>p < k_blocks phg.
               moveToPenalty (initializeGainInformation T work phg) v p
                 = moveToPenaltyRecomputed (initializeGainInformation T work phg) v p)
         \<and> (\<forall>T' work'. valid_work (hg phg) T' v work' \<longrightarrow>
               fst (gain_of_high_degree_vertex phg v work' (replicate T' (\<lambda>_. 0)))
                 = fst (gain_of_low_degree_vertex phg v (\<lambda>_. 0)))"
proof -
  from initializeGainInformation_entries [OF threads conn work] obtain s
    where res: "initializeGainInformation T work phg = s\<lparr>is_gain_cache_initialized := True\<rparr>"
      and same: "partition_of s = partition_of phg"
      and ok: "gain_cache_entries_ok phg s v"
    using v by blast
  have same': "partition_of (s\<lparr>is_gain_cache_initialized := True\<rparr>) = partition_of phg"
    using same by (simp add: partition_of_def)
  have k: "k_blocks s = k_blocks phg"
    using partition_of_fields [OF same] by simp
  have cv: "\<forall>e \<in> set (incidentEdges (hg phg) v). connectivity_consistent phg e"
    using conn v by simp
  have fv: "incident_weights_fit (hg phg) v"
    using fit v by simp
  have "move_from_benefit s v = wrap_int32 (moveFromBenefitRecomputed phg v)"
    using ok by (simp add: gain_cache_entries_ok_def benefit_of_edges_recomputed)
  then have "moveFromBenefit (s\<lparr>is_gain_cache_initialized := True\<rparr>) v
          = moveFromBenefitRecomputed phg v"
    by (simp add: moveFromBenefit_def recomputed_fit(1) [OF fv])
  moreover have "moveToPenalty (s\<lparr>is_gain_cache_initialized := True\<rparr>) v p
          = moveToPenaltyRecomputed phg v p" if "p < k_blocks phg" for p
  proof -
    have "move_to_penalty s (v * k_blocks phg + p) = wrap_int32 (moveToPenaltyRecomputed phg v p)"
      using ok that by (simp add: gain_cache_entries_ok_def penalty_of_edges_recomputed [OF cv that])
    then show ?thesis
      by (simp add: moveToPenalty_def penalty_index_def k recomputed_fit(2) [OF fv])
  qed
  ultimately show ?thesis
    unfolding res recomputed_cong [OF same']
    using same' by (simp add: high_degree_path_eq_low_degree_path)
qed

lemma connectivity_consistent_blocks:
  "connectivity_consistent phg e \<longleftrightarrow>
     connectivity_set phg e
       = set (filter (\<lambda>p. 1 \<le> pinCountInPart phg e p) [0..<k_blocks phg])"
  by (auto simp: connectivity_consistent_def)

text \<open>
  An instance: the hypergraph of \<open>destination_state\<close> (six nodes, four edges, five
  blocks) with the gain cache not yet initialised, two threads, and for node 0 a
  distribution of its four edges over two threads, out of order.
\<close>

definition destination_start :: PartitionedHypergraph where
  "destination_start =
     destination_state\<lparr>is_gain_cache_initialized := False,
                       move_to_penalty := (\<lambda>_. 0), move_from_benefit := (\<lambda>_. 0)\<rparr>"

theorem initializeGainInformation_correct_witness:
  "(0::nat) < 2 \<and> (0::nat) < initialNumNodes (hg destination_start)
   \<and> nodeIsEnabled (hg destination_start) 0
   \<and> list_all (incident_weights_fit (hg destination_start)) [0, 1, 2, 3, 4, 5]
   \<and> valid_work (hg destination_start) 2 0 [[0, 2], [3, 1]]
   \<and> \<not> is_gain_cache_initialized destination_start
   \<and> moveFromBenefit destination_start 0 = 0
   \<and> is_gain_cache_initialized
        (initializeGainInformation 2 (\<lambda>u. [incidentEdges destination_hg u, []]) destination_start)
   \<and> moveFromBenefit
        (initializeGainInformation 2 (\<lambda>u. [incidentEdges destination_hg u, []]) destination_start)
        0 = 5
   \<and> map (moveToPenalty
            (initializeGainInformation 2 (\<lambda>u. [incidentEdges destination_hg u, []])
               destination_start) 0) [0, 1, 2, 3, 4]
       = [0, 5, 3, 3, 1]
   \<and> fst (gain_of_high_degree_vertex destination_start 0 [[0, 2], [3, 1]] (replicate 2 (\<lambda>_. 0)))
       = fst (gain_of_low_degree_vertex destination_start 0 (\<lambda>_. 0))"
proof -
  let ?work = "\<lambda>u. [incidentEdges destination_hg u, []]"
  let ?s = "initializeGainInformation 2 ?work destination_start"
  have hg: "hg destination_start = destination_hg" and k: "k_blocks destination_start = 5"
    by (simp_all add: destination_start_def destination_state_def)
  have n: "initialNumNodes destination_hg = 6" and en: "nodeIsEnabled destination_hg = (\<lambda>u. u < 6)"
    by (simp_all add: destination_hg_def)
  have nodes: "u < 6 \<longleftrightarrow> u \<in> set [0, 1, 2, 3, 4, 5]" for u :: nat
    by auto
  have threads: "(0::nat) < 2"
    by simp
  have "list_all (\<lambda>u. list_all
                         (\<lambda>e. connectivity_set destination_start e
                                = set (filter (\<lambda>p. 1 \<le> pinCountInPart destination_start e p)
                                         [0..<k_blocks destination_start]))
                         (incidentEdges (hg destination_start) u)) [0, 1, 2, 3, 4, 5]"
    by code_simp
  then have conn: "\<forall>u < initialNumNodes (hg destination_start).
                 nodeIsEnabled (hg destination_start) u \<longrightarrow>
                 (\<forall>e \<in> set (incidentEdges (hg destination_start) u).
                     connectivity_consistent destination_start e)"
    unfolding hg n nodes list_all_iff connectivity_consistent_blocks by blast
  have degree: "list_all (\<lambda>u. nodeDegree (hg destination_start) u \<le> HIGH_DEGREE_THRESHOLD)
                  [0, 1, 2, 3, 4, 5]"
    by code_simp
  have work: "\<forall>u < initialNumNodes (hg destination_start).
                 nodeIsEnabled (hg destination_start) u
                   \<and> HIGH_DEGREE_THRESHOLD < nodeDegree (hg destination_start) u \<longrightarrow>
                 valid_work (hg destination_start) 2 u (?work u)"
    using degree unfolding hg n nodes list_all_iff by fastforce
  have fits: "list_all (incident_weights_fit (hg destination_start)) [0, 1, 2, 3, 4, 5]"
    by code_simp
  then have fit: "\<forall>u < initialNumNodes (hg destination_start).
                 nodeIsEnabled (hg destination_start) u \<longrightarrow>
                 incident_weights_fit (hg destination_start) u"
    unfolding hg n nodes list_all_iff by blast
  have v: "(0::nat) < initialNumNodes (hg destination_start)"
    "nodeIsEnabled (hg destination_start) 0"
    by (simp_all add: hg n en)
  have valid: "valid_work (hg destination_start) 2 0 [[0, 2], [3, 1]]"
    by (simp add: valid_work_def hg destination_hg_def)
  have before: "\<not> is_gain_cache_initialized destination_start"
    "moveFromBenefit destination_start 0 = 0"
    by (simp_all add: destination_start_def moveFromBenefit_def)
  have recomputed: "moveFromBenefitRecomputed destination_start 0 = 5"
    "map (moveToPenaltyRecomputed destination_start 0) [0, 1, 2, 3, 4] = [0, 5, 3, 3, 1]"
    by code_simp+
  from initializeGainInformation_correct [OF threads conn work fit v]
  have init: "is_gain_cache_initialized ?s"
    and same: "partition_of ?s = partition_of destination_start"
    and benefit: "moveFromBenefit ?s 0 = moveFromBenefitRecomputed ?s 0"
    and penalty: "\<forall>p < k_blocks destination_start.
                    moveToPenalty ?s 0 p = moveToPenaltyRecomputed ?s 0 p"
    and paths: "fst (gain_of_high_degree_vertex destination_start 0 [[0, 2], [3, 1]]
                       (replicate 2 (\<lambda>_. 0)))
                  = fst (gain_of_low_degree_vertex destination_start 0 (\<lambda>_. 0))"
    using valid by blast+
  have "moveFromBenefit ?s 0 = 5"
    using benefit recomputed(1) by (simp add: recomputed_cong [OF same])
  moreover have "map (moveToPenalty ?s 0) [0, 1, 2, 3, 4] = [0, 5, 3, 3, 1]"
    using penalty recomputed(2) by (simp add: recomputed_cong [OF same] k)
  ultimately show ?thesis
    using threads v fits valid before init paths by blast
qed

section \<open>The effect of a move on the partition data\<close>

text \<open>
  The callbacks of \<open>changeNodePart\<close> are the caller's; the results below are about
  callbacks that leave the partition data (everything but the gain cache) as they are,
  as the empty callback and the gain cache update do. \<open>edge_moved\<close> is the pair of
  pin count updates on one edge, \<open>moved_counts\<close> and \<open>moved_blocks\<close> its effect on the
  counts and on the connectivity set of that edge.
\<close>

definition keeps_partition :: "(PartitionedHypergraph \<Rightarrow> PartitionedHypergraph) \<Rightarrow> bool" where
  "keeps_partition f \<longleftrightarrow> (\<forall>s. partition_of (f s) = partition_of s)"

definition delta_keeps_partition :: "DeltaFunction \<Rightarrow> bool" where
  "delta_keeps_partition delta_func \<longleftrightarrow>
     (\<forall>he we sz c_from c_to. keeps_partition (delta_func he we sz c_from c_to))"

definition edge_moved ::
  "HyperedgeID \<Rightarrow> PartitionID \<Rightarrow> PartitionID \<Rightarrow> PartitionedHypergraph \<Rightarrow> PartitionedHypergraph" where
  "edge_moved e from to s =
     snd (incrementPinCountInPartWithoutGainUpdate
            (snd (decrementPinCountInPartWithoutGainUpdate s e from)) e to)"

definition moved_counts :: "PartitionID \<Rightarrow> PartitionID \<Rightarrow> (PartitionID \<Rightarrow> nat) \<Rightarrow> (PartitionID \<Rightarrow> nat)" where
  "moved_counts from to c = (c(from := c from - 1))(to := (c(from := c from - 1)) to + 1)"

definition moved_blocks ::
  "PartitionID \<Rightarrow> PartitionID \<Rightarrow> (PartitionID \<Rightarrow> nat) \<Rightarrow> PartitionID set \<Rightarrow> PartitionID set" where
  "moved_blocks from to c S =
     (let S1 = (if c from - 1 = 0 then S - {from} else S)
      in if (c(from := c from - 1)) to + 1 = 1 then insert to S1 else S1)"

lemma decrement_fields:
  "decrementPinCountInPartWithoutGainUpdate s e p
     = (pins_in_part s e p - 1,
        s\<lparr>pins_in_part := (pins_in_part s)(e := (pins_in_part s e)(p := pins_in_part s e p - 1)),
          connectivity_set := (connectivity_set s)
            (e := if pins_in_part s e p - 1 = 0 then connectivity_set s e - {p}
                  else connectivity_set s e)\<rparr>)"
  by (simp add: decrementPinCountInPartWithoutGainUpdate_def decrementPinCountInPart_def
      setPinCountInPart_def cs_remove_def Let_def)

lemma increment_fields:
  "incrementPinCountInPartWithoutGainUpdate s e p
     = (pins_in_part s e p + 1,
        s\<lparr>pins_in_part := (pins_in_part s)(e := (pins_in_part s e)(p := pins_in_part s e p + 1)),
          connectivity_set := (connectivity_set s)
            (e := if pins_in_part s e p + 1 = 1 then insert p (connectivity_set s e)
                  else connectivity_set s e)\<rparr>)"
  by (simp add: incrementPinCountInPartWithoutGainUpdate_def incrementPinCountInPart_def
      setPinCountInPart_def cs_add_def Let_def)

lemma edge_moved_fields:
  "edge_moved e from to s
     = s\<lparr>pins_in_part := (pins_in_part s)(e := moved_counts from to (pins_in_part s e)),
         connectivity_set := (connectivity_set s)
           (e := moved_blocks from to (pins_in_part s e) (connectivity_set s e))\<rparr>"
  by (simp add: edge_moved_def decrement_fields increment_fields moved_counts_def
      moved_blocks_def Let_def)

lemma partition_of_edge_moved_cong:
  assumes "partition_of s = partition_of t"
  shows "partition_of (edge_moved e from to s) = partition_of (edge_moved e from to t)"
  using assms by (simp add: edge_moved_fields partition_of_def)

lemma update_free:
  assumes free: "\<not> pin_count_update_ownership s he" and frame: "delta_keeps_partition delta_func"
  shows "\<exists>s'. updatePinCountOfHyperedgeWithoutGainUpdates he from to delta_func s = (True, s')
              \<and> partition_of s' = partition_of (edge_moved he from to s)"
proof -
  let ?s1 = "s\<lparr>pin_count_update_ownership := (pin_count_update_ownership s)(he := True)\<rparr>"
  let ?s3 = "edge_moved he from to ?s1"
  let ?cf = "pins_in_part s he from - 1"
  let ?ct = "((pins_in_part s he)(from := pins_in_part s he from - 1)) to + 1"
  let ?s4 = "delta_func he (edgeWeight (hg ?s3) he) (edgeSize (hg ?s3) he) ?cf ?ct ?s3"
  have s4: "partition_of ?s4 = partition_of ?s3"
    using frame by (simp add: delta_keeps_partition_def keeps_partition_def)
  have run: "updatePinCountOfHyperedgeWithoutGainUpdates he from to delta_func s
          = (True, ?s4\<lparr>pin_count_update_ownership :=
                         (pin_count_update_ownership ?s4)(he := False)\<rparr>)"
    using free
    by (simp add: updatePinCountOfHyperedgeWithoutGainUpdates_def edge_moved_def
        decrement_fields increment_fields Let_def)
  have "partition_of (?s4\<lparr>pin_count_update_ownership :=
                         (pin_count_update_ownership ?s4)(he := False)\<rparr>)
          = partition_of (edge_moved he from to s)"
    using partition_of_fields [OF s4] free
    by (simp add: partition_of_def edge_moved_fields fun_upd_idem)
  with run show ?thesis
    by blast
qed

lemma spin_free:
  assumes free: "\<not> pin_count_update_ownership s he" and frame: "delta_keeps_partition delta_func"
  shows "\<exists>s'. spin_updatePinCountOfHyperedge he from to delta_func s = Some s'
              \<and> partition_of s' = partition_of (edge_moved he from to s)"
proof -
  from update_free [OF assms] obtain s'
    where "updatePinCountOfHyperedgeWithoutGainUpdates he from to delta_func s = (True, s')"
      and "partition_of s' = partition_of (edge_moved he from to s)"
    by blast
  then show ?thesis
    by (subst spin_updatePinCountOfHyperedge.simps) simp
qed

definition no_edge_owned :: "PartitionedHypergraph \<Rightarrow> bool" where
  "no_edge_owned s \<longleftrightarrow> (\<forall>e. \<not> pin_count_update_ownership s e)"

lemma no_edge_owned_cong:
  assumes "partition_of s = partition_of t"
  shows "no_edge_owned s = no_edge_owned t"
  using partition_of_fields [OF assms] by (simp add: no_edge_owned_def)

lemma no_edge_owned_edge_moved [simp]:
  "no_edge_owned (edge_moved e from to s) = no_edge_owned s"
  by (simp add: no_edge_owned_def edge_moved_fields)

lemma partition_of_fold_edge_moved_cong:
  "partition_of s = partition_of t \<Longrightarrow>
   partition_of (fold (\<lambda>e. edge_moved e from to) es s)
     = partition_of (fold (\<lambda>e. edge_moved e from to) es t)"
proof (induction es arbitrary: s t)
  case Nil
  then show ?case by simp
next
  case (Cons e es)
  from Cons.IH [OF partition_of_edge_moved_cong [OF Cons.prems]] show ?case
    by simp
qed

lemma update_incident_edges_free:
  assumes "no_edge_owned s" "delta_keeps_partition delta_func"
  shows "\<exists>s'. update_incident_edges es from to delta_func s = Some s'
              \<and> partition_of s' = partition_of (fold (\<lambda>e. edge_moved e from to) es s)"
  using assms(1)
proof (induction es arbitrary: s)
  case Nil
  then show ?case by simp
next
  case (Cons e es)
  from Cons.prems have "\<not> pin_count_update_ownership s e"
    by (simp add: no_edge_owned_def)
  from spin_free [OF this assms(2)] obtain s1
    where s1: "spin_updatePinCountOfHyperedge e from to delta_func s = Some s1"
      and p1: "partition_of s1 = partition_of (edge_moved e from to s)"
    by blast
  have "no_edge_owned s1"
    using Cons.prems by (simp add: no_edge_owned_cong [OF p1])
  from Cons.IH [OF this] obtain s'
    where s': "update_incident_edges es from to delta_func s1 = Some s'"
      and p': "partition_of s' = partition_of (fold (\<lambda>e. edge_moved e from to) es s1)"
    by blast
  have "partition_of s' = partition_of (fold (\<lambda>e. edge_moved e from to) (e # es) s)"
    using p' partition_of_fold_edge_moved_cong [OF p1] by simp
  with s1 s' show ?case
    by simp
qed

text \<open>The state from which the edges of a moved node are updated.\<close>

definition node_moved ::
  "HypernodeID \<Rightarrow> PartitionID \<Rightarrow> PartitionID \<Rightarrow> PartitionedHypergraph \<Rightarrow> PartitionedHypergraph" where
  "node_moved u from to s =
     s\<lparr>part_weights :=
         ((part_weights s)(to := wrap_int32 (part_weights s to + nodeWeight (hg s) u)))
           (from := wrap_int32
                      (((part_weights s)(to := wrap_int32 (part_weights s to + nodeWeight (hg s) u)))
                         from
                       - nodeWeight (hg s) u)),
       part_ids := (part_ids s)(u := Some to)\<rparr>"

definition move_accepted ::
  "HypernodeID \<Rightarrow> PartitionID \<Rightarrow> PartitionID \<Rightarrow> HypernodeWeight \<Rightarrow> PartitionedHypergraph \<Rightarrow> bool" where
  "move_accepted u from to max_weight_to s \<longleftrightarrow>
     wrap_int32 (part_weights s to + nodeWeight (hg s) u) \<le> max_weight_to
     \<and> ((part_weights s)(to := wrap_int32 (part_weights s to + nodeWeight (hg s) u))) from > 0"

lemma changeNodePart_rejected:
  assumes "\<not> move_accepted u from to max_weight_to s"
  shows "\<exists>s'. changeNodePart u from to max_weight_to report_success delta_func s
                = Some (False, s')"
  using assms by (simp add: changeNodePart_def move_accepted_def Let_def)

lemma changeNodePart_accepted:
  assumes acc: "move_accepted u from to max_weight_to s"
    and free: "no_edge_owned s"
    and report: "keeps_partition report_success"
    and frame: "delta_keeps_partition delta_func"
  shows "\<exists>s'. changeNodePart u from to max_weight_to report_success delta_func s = Some (True, s')
              \<and> partition_of s'
                  = partition_of (fold (\<lambda>e. edge_moved e from to) (incidentEdges (hg s) u)
                                    (node_moved u from to s))"
proof -
  let ?s3 = "node_moved u from to s"
  let ?s4 = "report_success ?s3"
  have p4: "partition_of ?s4 = partition_of ?s3"
    using report by (simp add: keeps_partition_def)
  have hg4: "hg ?s4 = hg s"
    using partition_of_fields [OF p4] by (simp add: node_moved_def)
  have "no_edge_owned ?s3"
    using free by (simp add: no_edge_owned_def node_moved_def)
  then have "no_edge_owned ?s4"
    by (simp add: no_edge_owned_cong [OF p4])
  from update_incident_edges_free [OF this frame, of "incidentEdges (hg s) u" "from" "to"] obtain s'
    where r: "update_incident_edges (incidentEdges (hg s) u) from to delta_func ?s4 = Some s'"
      and p: "partition_of s'
                = partition_of (fold (\<lambda>e. edge_moved e from to) (incidentEdges (hg s) u) ?s4)"
    by blast
  have "changeNodePart u from to max_weight_to report_success delta_func s = Some (True, s')"
    using acc r hg4
    by (simp add: changeNodePart_def move_accepted_def Let_def node_moved_def)
  moreover have "partition_of s'
      = partition_of (fold (\<lambda>e. edge_moved e from to) (incidentEdges (hg s) u) ?s3)"
    using p partition_of_fold_edge_moved_cong [OF p4] by simp
  ultimately show ?thesis
    by blast
qed

lemma fold_edge_moved_fields:
  "distinct es \<Longrightarrow>
   fold (\<lambda>e. edge_moved e from to) es s
     = s\<lparr>pins_in_part :=
           (\<lambda>e. if e \<in> set es then moved_counts from to (pins_in_part s e)
                else pins_in_part s e),
         connectivity_set :=
           (\<lambda>e. if e \<in> set es
                then moved_blocks from to (pins_in_part s e) (connectivity_set s e)
                else connectivity_set s e)\<rparr>"
proof (induction es arbitrary: s)
  case Nil
  show ?case by simp
next
  case (Cons e es)
  have pins: "(\<lambda>x. if x \<in> set es
                   then moved_counts from to (pins_in_part (edge_moved e from to s) x)
                   else pins_in_part (edge_moved e from to s) x)
               = (\<lambda>x. if x \<in> set (e # es) then moved_counts from to (pins_in_part s x)
                       else pins_in_part s x)"
    using Cons.prems by (auto simp: fun_eq_iff edge_moved_fields)
  have blocks: "(\<lambda>x. if x \<in> set es
                   then moved_blocks from to (pins_in_part (edge_moved e from to s) x)
                          (connectivity_set (edge_moved e from to s) x)
                   else connectivity_set (edge_moved e from to s) x)
               = (\<lambda>x. if x \<in> set (e # es)
                       then moved_blocks from to (pins_in_part s x) (connectivity_set s x)
                       else connectivity_set s x)"
    using Cons.prems by (auto simp: fun_eq_iff edge_moved_fields)
  have "fold (\<lambda>e. edge_moved e from to) (e # es) s
          = fold (\<lambda>e. edge_moved e from to) es (edge_moved e from to s)"
    by simp
  also have "\<dots> = (edge_moved e from to s)\<lparr>pins_in_part :=
           (\<lambda>x. if x \<in> set (e # es) then moved_counts from to (pins_in_part s x)
                else pins_in_part s x),
         connectivity_set :=
           (\<lambda>x. if x \<in> set (e # es)
                then moved_blocks from to (pins_in_part s x) (connectivity_set s x)
                else connectivity_set s x)\<rparr>"
    using Cons.prems by (simp add: Cons.IH pins blocks)
  also have "\<dots> = s\<lparr>pins_in_part :=
           (\<lambda>x. if x \<in> set (e # es) then moved_counts from to (pins_in_part s x)
                else pins_in_part s x),
         connectivity_set :=
           (\<lambda>x. if x \<in> set (e # es)
                then moved_blocks from to (pins_in_part s x) (connectivity_set s x)
                else connectivity_set s x)\<rparr>"
    by (simp add: edge_moved_fields)
  finally show ?case .
qed

section \<open>Well-formed hypergraphs and the invariant of the partition data\<close>

text \<open>
  What the partitioned hypergraph relies on from the hypergraph: the pins of an enabled
  edge are distinct enabled nodes, the incident edges of an enabled node are distinct
  enabled edges, and an enabled edge is incident to an enabled node exactly when the node
  is one of its pins.
\<close>

definition wf_hypergraph :: "Hypergraph \<Rightarrow> bool" where
  "wf_hypergraph h \<longleftrightarrow>
     (\<forall>e < initialNumEdges h. edgeIsEnabled h e \<longrightarrow>
        distinct (pins h e)
        \<and> (\<forall>u \<in> set (pins h e). u < initialNumNodes h \<and> nodeIsEnabled h u))
     \<and> (\<forall>u < initialNumNodes h. nodeIsEnabled h u \<longrightarrow>
          distinct (incidentEdges h u)
          \<and> (\<forall>e \<in> set (incidentEdges h u). e < initialNumEdges h \<and> edgeIsEnabled h e))
     \<and> (\<forall>u < initialNumNodes h. \<forall>e < initialNumEdges h.
          nodeIsEnabled h u \<longrightarrow> edgeIsEnabled h e \<longrightarrow>
          (e \<in> set (incidentEdges h u) \<longleftrightarrow> u \<in> set (pins h e)))"

text \<open>
  The invariant of the partition data: no edge is owned, only enabled nodes are assigned
  and only to blocks below \<open>k\<close>, every pin count of an enabled edge equals its
  recomputation from the block ids, the connectivity set of an enabled edge holds the
  blocks with a pin, and every block weight is the sum of the weights of its nodes,
  reduced to 32 bits.
\<close>

definition partition_invariant :: "Hypergraph \<Rightarrow> nat \<Rightarrow> PartitionedHypergraph \<Rightarrow> bool" where
  "partition_invariant h k s \<longleftrightarrow>
     hg s = h \<and> k_blocks s = k \<and> no_edge_owned s
     \<and> (\<forall>u p. part_ids s u = Some p \<longrightarrow>
           u < initialNumNodes h \<and> nodeIsEnabled h u \<and> p < k)
     \<and> (\<forall>e < initialNumEdges h. edgeIsEnabled h e \<longrightarrow>
           (\<forall>p. pinCountInPart s e p = pinCountInPartRecomputed s e p)
           \<and> connectivity_consistent s e)
     \<and> (\<forall>p. part_weights s p
              = wrap_int32
                  (sum_list (map (nodeWeight h)
                     (filter (\<lambda>u. part_ids s u = Some p) [0..<initialNumNodes h]))))"

definition all_assigned :: "Hypergraph \<Rightarrow> PartitionedHypergraph \<Rightarrow> bool" where
  "all_assigned h s \<longleftrightarrow>
     (\<forall>u < initialNumNodes h. nodeIsEnabled h u \<longrightarrow> part_ids s u \<noteq> None)"

lemma partition_invariant_cong:
  assumes "partition_of s = partition_of t"
  shows "partition_invariant h k s = partition_invariant h k t"
  using partition_of_fields [OF assms] no_edge_owned_cong [OF assms]
  by (simp add: partition_invariant_def pinCountInPart_def pinCountInPartRecomputed_def
      partID_def connectivity_consistent_def)

lemma all_assigned_cong:
  assumes "partition_of s = partition_of t"
  shows "all_assigned h s = all_assigned h t"
  using partition_of_fields [OF assms] by (simp add: all_assigned_def)

text \<open>Reassigning one element of a duplicate-free list, counted and summed per block.\<close>

lemma filter_reassigned_absent:
  assumes "u \<notin> set xs" "\<forall>v. v \<noteq> u \<longrightarrow> g v = f v"
  shows "filter (\<lambda>v. g v = Some p) xs = filter (\<lambda>v. f v = Some p) xs"
  using assms by (intro filter_cong refl) auto

lemma count_reassigned:
  assumes "distinct xs" "u \<in> set xs" "g u = Some b" "\<forall>v. v \<noteq> u \<longrightarrow> g v = f v"
  shows "length (filter (\<lambda>v. g v = Some p) xs) + (if f u = Some p then 1 else 0)
           = length (filter (\<lambda>v. f v = Some p) xs) + (if b = p then 1 else 0)"
  using assms(1,2)
proof (induction xs)
  case Nil
  then show ?case by simp
next
  case (Cons x xs)
  show ?case
  proof (cases "x = u")
    case True
    then have "u \<notin> set xs"
      using Cons.prems by simp
    from filter_reassigned_absent [OF this assms(4)] show ?thesis
      using True assms(3) by auto
  next
    case False
    then show ?thesis
      using Cons assms(4) by auto
  qed
qed

lemma weight_reassigned:
  assumes "distinct xs" "u \<in> set xs" "g u = Some b" "\<forall>v. v \<noteq> u \<longrightarrow> g v = f v"
  shows "sum_list (map w (filter (\<lambda>v. g v = Some p) xs)) + (if f u = Some p then w u else 0)
           = sum_list (map w (filter (\<lambda>v. f v = Some p) xs)) + (if b = p then w u else (0::int))"
  using assms(1,2)
proof (induction xs)
  case Nil
  then show ?case by simp
next
  case (Cons x xs)
  show ?case
  proof (cases "x = u")
    case True
    then have "u \<notin> set xs"
      using Cons.prems by simp
    from filter_reassigned_absent [OF this assms(4)] show ?thesis
      using True assms(3) by auto
  next
    case False
    then show ?thesis
      using Cons assms(4) by auto
  qed
qed

lemma wf_hypergraph_pins:
  assumes "wf_hypergraph h" "e < initialNumEdges h" "edgeIsEnabled h e"
  shows "distinct (pins h e)"
    and "\<And>u. u \<in> set (pins h e) \<Longrightarrow> u < initialNumNodes h \<and> nodeIsEnabled h u"
  using assms unfolding wf_hypergraph_def by blast+

lemma wf_hypergraph_incident:
  assumes "wf_hypergraph h" "u < initialNumNodes h" "nodeIsEnabled h u"
  shows "distinct (incidentEdges h u)"
    and "\<And>e. e \<in> set (incidentEdges h u) \<Longrightarrow> e < initialNumEdges h \<and> edgeIsEnabled h e"
    and "\<And>e. e < initialNumEdges h \<Longrightarrow> edgeIsEnabled h e \<Longrightarrow>
            e \<in> set (incidentEdges h u) \<longleftrightarrow> u \<in> set (pins h e)"
  using assms unfolding wf_hypergraph_def by blast+

lemma moved_blocks_consistent:
  assumes "S = {p. p < k \<and> 1 \<le> c p}" "from < k" "to < k" "from \<noteq> to"
  shows "moved_blocks from to c S = {p. p < k \<and> 1 \<le> moved_counts from to c p}"
  using assms by (auto simp: moved_blocks_def moved_counts_def Let_def)

lemma move_preserves_invariant:
  assumes wf: "wf_hypergraph h" and inv: "partition_invariant h k s"
    and u: "part_ids s u = Some from" and to: "to < k" and neq: "from \<noteq> to"
  shows "partition_invariant h k
           (fold (\<lambda>e. edge_moved e from to) (incidentEdges h u) (node_moved u from to s))"
proof -
  let ?n = "initialNumNodes h"
  let ?t = "fold (\<lambda>e. edge_moved e from to) (incidentEdges h u) (node_moved u from to s)"
  let ?m = "node_moved u from to s"
  define ids where "ids = (part_ids s)(u := Some to)"
  have ids_u: "ids u = Some to" and other: "\<forall>v. v \<noteq> u \<longrightarrow> ids v = part_ids s v"
    by (simp_all add: ids_def)
  from inv have hg: "hg s = h" and k: "k_blocks s = k" and own: "no_edge_owned s"
    and old_ids: "\<And>v p. part_ids s v = Some p \<Longrightarrow> v < ?n \<and> nodeIsEnabled h v \<and> p < k"
    and counts: "\<And>e p. e < initialNumEdges h \<Longrightarrow> edgeIsEnabled h e \<Longrightarrow>
                   pins_in_part s e p
                     = length (filter (\<lambda>v. part_ids s v = Some p) (pins h e))"
    and blocks: "\<And>e. e < initialNumEdges h \<Longrightarrow> edgeIsEnabled h e \<Longrightarrow>
                   connectivity_set s e = {p. p < k \<and> 1 \<le> pins_in_part s e p}"
    and weights: "\<And>p. part_weights s p
                    = wrap_int32 (sum_list (map (nodeWeight h)
                        (filter (\<lambda>v. part_ids s v = Some p) [0..<?n])))"
    by (simp_all add: partition_invariant_def pinCountInPart_def pcip_pinCountInPart_def
        pinCountInPartRecomputed_def partID_def connectivity_consistent_def)
  from old_ids [OF u] have un: "u < ?n" and ue: "nodeIsEnabled h u" and fk: "from < k"
    by simp_all
  note dist = wf_hypergraph_incident(1) [OF wf un ue]
  note inc = wf_hypergraph_incident(3) [OF wf un ue]
  have t: "?t = ?m\<lparr>pins_in_part :=
                    (\<lambda>e. if e \<in> set (incidentEdges h u)
                         then moved_counts from to (pins_in_part ?m e) else pins_in_part ?m e),
                  connectivity_set :=
                    (\<lambda>e. if e \<in> set (incidentEdges h u)
                         then moved_blocks from to (pins_in_part ?m e) (connectivity_set ?m e)
                         else connectivity_set ?m e)\<rparr>"
    by (rule fold_edge_moved_fields [OF dist])
  have m: "pins_in_part ?m = pins_in_part s" "connectivity_set ?m = connectivity_set s"
    "part_ids ?m = ids" "hg ?m = h" "k_blocks ?m = k"
    "pin_count_update_ownership ?m = pin_count_update_ownership s"
    "part_weights ?m = ((part_weights s)(to := wrap_int32 (part_weights s to + nodeWeight h u)))
                         (from := wrap_int32 (part_weights s from - nodeWeight h u))"
    using hg k neq by (simp_all add: node_moved_def ids_def)
  have t_ids: "part_ids ?t = ids" and t_hg: "hg ?t = h" and t_k: "k_blocks ?t = k"
    and t_own: "no_edge_owned ?t"
    using own unfolding t by (simp_all add: m no_edge_owned_def)
  have t_weights: "part_weights ?t
      = ((part_weights s)(to := wrap_int32 (part_weights s to + nodeWeight h u)))
          (from := wrap_int32 (part_weights s from - nodeWeight h u))"
    unfolding t by (simp add: m)
  have t_pins: "pins_in_part ?t e
      = (if e \<in> set (incidentEdges h u) then moved_counts from to (pins_in_part s e)
         else pins_in_part s e)" for e
    unfolding t by (simp add: m)
  have t_blocks: "connectivity_set ?t e
      = (if e \<in> set (incidentEdges h u)
         then moved_blocks from to (pins_in_part s e) (connectivity_set s e)
         else connectivity_set s e)" for e
    unfolding t by (simp add: m)
  have new_ids: "v < ?n \<and> nodeIsEnabled h v \<and> p < k" if "ids v = Some p" for v p
  proof (cases "v = u")
    case True
    with that ids_u un ue to show ?thesis by simp
  next
    case False
    with that other old_ids [of v p] show ?thesis by simp
  qed
  have new_counts: "pins_in_part ?t e p = length (filter (\<lambda>v. ids v = Some p) (pins h e))"
    if e: "e < initialNumEdges h" "edgeIsEnabled h e" for e p
  proof (cases "e \<in> set (incidentEdges h u)")
    case True
    then have "u \<in> set (pins h e)"
      using inc [OF e] by simp
    from count_reassigned [OF wf_hypergraph_pins(1) [OF wf e] this ids_u other, of p]
    have "length (filter (\<lambda>v. ids v = Some p) (pins h e)) + (if from = p then 1 else 0)
            = length (filter (\<lambda>v. part_ids s v = Some p) (pins h e))
              + (if to = p then 1 else 0)"
      using u by simp
    then show ?thesis
      using True neq counts [OF e, of p]
      by (auto simp: t_pins moved_counts_def)
  next
    case False
    then have "u \<notin> set (pins h e)"
      using inc [OF e] by simp
    from filter_reassigned_absent [OF this other] show ?thesis
      using False counts [OF e, of p] by (simp add: t_pins)
  qed
  have new_blocks: "connectivity_set ?t e = {p. p < k \<and> 1 \<le> pins_in_part ?t e p}"
    if e: "e < initialNumEdges h" "edgeIsEnabled h e" for e
    using blocks [OF e] moved_blocks_consistent [OF _ fk to neq]
    by (simp add: t_pins t_blocks)
  have new_weights: "part_weights ?t p
      = wrap_int32 (sum_list (map (nodeWeight h) (filter (\<lambda>v. ids v = Some p) [0..<?n])))" for p
  proof -
    define old where "old = sum_list (map (nodeWeight h)
                              (filter (\<lambda>v. part_ids s v = Some p) [0..<?n]))"
    define new where "new = sum_list (map (nodeWeight h) (filter (\<lambda>v. ids v = Some p) [0..<?n]))"
    from weight_reassigned [OF _ _ ids_u other, of "[0..<?n]" "nodeWeight h" p]
    have eq: "new + (if from = p then nodeWeight h u else 0)
                = old + (if to = p then nodeWeight h u else 0)"
      using un u by (simp add: old_def new_def)
    have w: "part_weights s p = wrap_int32 old"
      using weights [of p] by (simp add: old_def)
    have "part_weights ?t p = wrap_int32 new"
    proof (cases "p = to")
      case True
      with neq eq have "new = old + nodeWeight h u"
        by simp
      with True neq w show ?thesis
        by (simp add: t_weights)
    next
      case False
      show ?thesis
      proof (cases "p = from")
        case True
        with neq eq have "new = old - nodeWeight h u"
          by simp
        with True neq w show ?thesis
          by (simp add: t_weights)
      next
        case nf: False
        with False eq have "new = old"
          by simp
        with False nf w show ?thesis
          by (simp add: t_weights)
      qed
    qed
    then show ?thesis
      by (simp add: new_def)
  qed
  show ?thesis
    unfolding partition_invariant_def pinCountInPart_def pcip_pinCountInPart_def
      pinCountInPartRecomputed_def partID_def connectivity_consistent_def
      t_ids t_hg t_k
    using t_own new_ids new_counts new_blocks new_weights by blast
qed


lemma pin_in_block_counted:
  "u \<in> set xs \<Longrightarrow> f u = Some p \<Longrightarrow> 1 \<le> length (filter (\<lambda>v. f v = Some p) xs)"
  by (induction xs) auto





lemma partition_of_add_benefit_of_first_pin_in [simp]:
  "partition_of (add_benefit_of_first_pin_in from we us s) = partition_of s"
  by (induction us) (simp_all add: partition_of_def)

lemma partition_of_add_penalty_of_all_pins [simp]:
  "partition_of (add_penalty_of_all_pins p we us s) = partition_of s"
  unfolding add_penalty_of_all_pins_def
  by (induction us arbitrary: s) (simp_all add: partition_of_def)

lemma partition_of_sub_benefit_of_pins_in [simp]:
  "partition_of (sub_benefit_of_pins_in to we us s) = partition_of s"
  unfolding sub_benefit_of_pins_in_def
  by (induction us arbitrary: s) (simp_all add: partition_of_def)

lemma partition_of_gainCacheUpdate [simp]:
  "partition_of (gainCacheUpdate he we from c_from to c_to s) = partition_of s"
  by (simp add: gainCacheUpdate_def Let_def)

lemma keeps_partition_id: "keeps_partition id"
  by (simp add: keeps_partition_def)

lemma delta_keeps_partition_NOOP: "delta_keeps_partition NOOP_FUNC"
  by (simp add: delta_keeps_partition_def keeps_partition_def NOOP_FUNC_def)

lemma delta_keeps_partition_full_update:
  assumes "delta_keeps_partition delta_func"
  shows "delta_keeps_partition
           (\<lambda>he edge_weight edge_size c_from c_to s.
              gainCacheUpdate he edge_weight from c_from to c_to
                (delta_func he edge_weight edge_size c_from c_to s))"
  using assms by (simp add: delta_keeps_partition_def keeps_partition_def)



lemma scenario3_wf: "wf_hypergraph scenario3_hg"
  by (auto simp: wf_hypergraph_def scenario3_hg_def)

lemma scenario3_invariant: "partition_invariant scenario3_hg 2 scenario3"
  unfolding partition_invariant_def
proof (intro conjI allI impI)
  show "hg scenario3 = scenario3_hg" "k_blocks scenario3 = 2" "no_edge_owned scenario3"
    by (simp_all add: scenario3_def no_edge_owned_def)
next
  fix u p assume "part_ids scenario3 u = Some p"
  then show "u < initialNumNodes scenario3_hg" "nodeIsEnabled scenario3_hg u" "p < 2"
    by (auto simp: scenario3_def scenario3_hg_def split: if_splits)
next
  fix e p assume "e < initialNumEdges scenario3_hg"
  then have e: "e = 0"
    by (simp add: scenario3_hg_def)
  show "pinCountInPart scenario3 e p = pinCountInPartRecomputed scenario3 e p"
    unfolding e
    by (simp add: pinCountInPart_def pcip_pinCountInPart_def pinCountInPartRecomputed_def
        partID_def scenario3_def scenario3_hg_def)
  show "connectivity_consistent scenario3 e"
    unfolding e
    by (auto simp: connectivity_consistent_def scenario3_def pinCountInPart_def
        pcip_pinCountInPart_def)
next
  fix p
  show "part_weights scenario3 p
          = wrap_int32
              (sum_list (map (nodeWeight scenario3_hg)
                 (filter (\<lambda>u. part_ids scenario3 u = Some p)
                    [0..<initialNumNodes scenario3_hg])))"
  proof -
    have "[0..<4] = [0, 1, 2, 3::nat]"
      by code_simp
    then show ?thesis
      by (simp add: scenario3_def scenario3_hg_def wrap_int32_def)
  qed
qed


section \<open>Reachable states\<close>

text \<open>
  A state is reachable when it results from an initial assignment of every enabled node to
  a block below \<open>k\<close>, by \<^verbatim>\<open>setNodePart\<close> or by \<^verbatim>\<open>setOnlyNodePart\<close> followed by
  \<^verbatim>\<open>initializePartition\<close>, and then from calls of \<^verbatim>\<open>changeNodePart\<close> that returned true.
  The premises of the rules are the assertions of the source: \<^verbatim>\<open>setOnlyNodePart\<close> asserts
  that the node is unassigned and the block is below \<open>k\<close>, \<^verbatim>\<open>changeNodePart\<close> asserts
  \<open>partID(u) = from\<close> and \<open>from \<noteq> to\<close>. Both initialisations establish the invariant of
  the partition data and every accepted move preserves it.
\<close>

subsection \<open>Assignment of one node by setNodePart\<close>

definition edge_joined ::
  "HyperedgeID \<Rightarrow> PartitionID \<Rightarrow> PartitionedHypergraph \<Rightarrow> PartitionedHypergraph" where
  "edge_joined e p s = snd (incrementPinCountInPartWithoutGainUpdate s e p)"

definition joined_counts :: "PartitionID \<Rightarrow> (PartitionID \<Rightarrow> nat) \<Rightarrow> (PartitionID \<Rightarrow> nat)" where
  "joined_counts p c = c(p := c p + 1)"

definition joined_blocks ::
  "PartitionID \<Rightarrow> (PartitionID \<Rightarrow> nat) \<Rightarrow> PartitionID set \<Rightarrow> PartitionID set" where
  "joined_blocks p c S = (if c p + 1 = 1 then insert p S else S)"

lemma edge_joined_fields:
  "edge_joined e p s
     = s\<lparr>pins_in_part := (pins_in_part s)(e := joined_counts p (pins_in_part s e)),
         connectivity_set := (connectivity_set s)
           (e := joined_blocks p (pins_in_part s e) (connectivity_set s e))\<rparr>"
  by (simp add: edge_joined_def increment_fields joined_counts_def joined_blocks_def)

lemma fold_edge_joined_fields:
  "distinct es \<Longrightarrow>
   fold (\<lambda>e. edge_joined e p) es s
     = s\<lparr>pins_in_part :=
           (\<lambda>e. if e \<in> set es then joined_counts p (pins_in_part s e)
                else pins_in_part s e),
         connectivity_set :=
           (\<lambda>e. if e \<in> set es
                then joined_blocks p (pins_in_part s e) (connectivity_set s e)
                else connectivity_set s e)\<rparr>"
proof (induction es arbitrary: s)
  case Nil
  show ?case by simp
next
  case (Cons e es)
  let ?s1 = "edge_joined e p s"
  have pins: "(\<lambda>x. if x \<in> set es then joined_counts p (pins_in_part ?s1 x)
                   else pins_in_part ?s1 x)
               = (\<lambda>x. if x \<in> set (e # es) then joined_counts p (pins_in_part s x)
                       else pins_in_part s x)"
    using Cons.prems by (auto simp: fun_eq_iff edge_joined_fields)
  have blocks: "(\<lambda>x. if x \<in> set es
                   then joined_blocks p (pins_in_part ?s1 x) (connectivity_set ?s1 x)
                   else connectivity_set ?s1 x)
               = (\<lambda>x. if x \<in> set (e # es)
                       then joined_blocks p (pins_in_part s x) (connectivity_set s x)
                       else connectivity_set s x)"
    using Cons.prems by (auto simp: fun_eq_iff edge_joined_fields)
  have "fold (\<lambda>e. edge_joined e p) (e # es) s = fold (\<lambda>e. edge_joined e p) es ?s1"
    by simp
  also have "\<dots> = ?s1\<lparr>pins_in_part :=
           (\<lambda>x. if x \<in> set (e # es) then joined_counts p (pins_in_part s x)
                else pins_in_part s x),
         connectivity_set :=
           (\<lambda>x. if x \<in> set (e # es)
                then joined_blocks p (pins_in_part s x) (connectivity_set s x)
                else connectivity_set s x)\<rparr>"
    using Cons.prems by (simp add: Cons.IH pins blocks)
  also have "\<dots> = s\<lparr>pins_in_part :=
           (\<lambda>x. if x \<in> set (e # es) then joined_counts p (pins_in_part s x)
                else pins_in_part s x),
         connectivity_set :=
           (\<lambda>x. if x \<in> set (e # es)
                then joined_blocks p (pins_in_part s x) (connectivity_set s x)
                else connectivity_set s x)\<rparr>"
    by (simp add: edge_joined_fields)
  finally show ?case .
qed

lemma setNodePart_edges:
  "setNodePart s u p
     = fold (\<lambda>e. edge_joined e p) (incidentEdges (hg s) u)
         (s\<lparr>part_ids := (part_ids s)(u := Some p),
            part_weights :=
              (part_weights s)(p := wrap_int32 (part_weights s p + nodeWeight (hg s) u))\<rparr>)"
proof -
  have "(\<lambda>he s. snd (incrementPinCountInPartWithoutGainUpdate s he p)) = (\<lambda>e. edge_joined e p)"
    by (simp add: fun_eq_iff edge_joined_def)
  then show ?thesis
    by (simp add: setNodePart_def setOnlyNodePart_def Let_def)
qed

lemma new_PartitionedHypergraph_invariant:
  "partition_invariant h k (new_PartitionedHypergraph k h)"
  by (simp add: partition_invariant_def new_PartitionedHypergraph_def no_edge_owned_def
      pinCountInPart_def pcip_pinCountInPart_def pinCountInPartRecomputed_def partID_def
      connectivity_consistent_def)

lemma joined_blocks_consistent:
  assumes "S = {q. q < k \<and> 1 \<le> c q}" "p < k"
  shows "joined_blocks p c S = {q. q < k \<and> 1 \<le> joined_counts p c q}"
  using assms by (auto simp: joined_blocks_def joined_counts_def)

lemma setNodePart_preserves_invariant:
  assumes wf: "wf_hypergraph h" and inv: "partition_invariant h k s"
    and un: "u < initialNumNodes h" and ue: "nodeIsEnabled h u"
    and free: "part_ids s u = None" and p: "p < k"
  shows "partition_invariant h k (setNodePart s u p)"
proof -
  let ?n = "initialNumNodes h"
  let ?t = "setNodePart s u p"
  define ids where "ids = (part_ids s)(u := Some p)"
  have ids_u: "ids u = Some p" and other: "\<forall>v. v \<noteq> u \<longrightarrow> ids v = part_ids s v"
    by (simp_all add: ids_def)
  from inv have hg: "hg s = h" and k: "k_blocks s = k" and own: "no_edge_owned s"
    and old_ids: "\<And>v q. part_ids s v = Some q \<Longrightarrow> v < ?n \<and> nodeIsEnabled h v \<and> q < k"
    and counts: "\<And>e q. e < initialNumEdges h \<Longrightarrow> edgeIsEnabled h e \<Longrightarrow>
                   pins_in_part s e q
                     = length (filter (\<lambda>v. part_ids s v = Some q) (pins h e))"
    and blocks: "\<And>e. e < initialNumEdges h \<Longrightarrow> edgeIsEnabled h e \<Longrightarrow>
                   connectivity_set s e = {q. q < k \<and> 1 \<le> pins_in_part s e q}"
    and weights: "\<And>q. part_weights s q
                    = wrap_int32 (sum_list (map (nodeWeight h)
                        (filter (\<lambda>v. part_ids s v = Some q) [0..<?n])))"
    by (simp_all add: partition_invariant_def pinCountInPart_def pcip_pinCountInPart_def
        pinCountInPartRecomputed_def partID_def connectivity_consistent_def)
  note dist = wf_hypergraph_incident(1) [OF wf un ue]
  note inc = wf_hypergraph_incident(3) [OF wf un ue]
  let ?m = "s\<lparr>part_ids := (part_ids s)(u := Some p),
              part_weights :=
                (part_weights s)(p := wrap_int32 (part_weights s p + nodeWeight h u))\<rparr>"
  have t: "?t = ?m\<lparr>pins_in_part :=
           (\<lambda>e. if e \<in> set (incidentEdges h u)
                then joined_counts p (pins_in_part ?m e)
                else pins_in_part ?m e),
         connectivity_set :=
           (\<lambda>e. if e \<in> set (incidentEdges h u)
                then joined_blocks p (pins_in_part ?m e) (connectivity_set ?m e)
                else connectivity_set ?m e)\<rparr>"
    unfolding setNodePart_edges hg by (rule fold_edge_joined_fields [OF dist])
  have t_ids: "part_ids ?t = ids" and t_hg: "hg ?t = h" and t_k: "k_blocks ?t = k"
    and t_own: "no_edge_owned ?t"
    using own unfolding t by (simp_all add: ids_def hg k no_edge_owned_def)
  have t_weights: "part_weights ?t
                     = (part_weights s)(p := wrap_int32 (part_weights s p + nodeWeight h u))"
    unfolding t by simp
  have t_pins: "pins_in_part ?t e
      = (if e \<in> set (incidentEdges h u) then joined_counts p (pins_in_part s e)
         else pins_in_part s e)" for e
    unfolding t by simp
  have t_blocks: "connectivity_set ?t e
      = (if e \<in> set (incidentEdges h u)
         then joined_blocks p (pins_in_part s e) (connectivity_set s e)
         else connectivity_set s e)" for e
    unfolding t by simp
  have new_ids: "v < ?n \<and> nodeIsEnabled h v \<and> q < k" if "ids v = Some q" for v q
  proof (cases "v = u")
    case True
    with that ids_u un ue p show ?thesis by simp
  next
    case False
    with that other old_ids [of v q] show ?thesis by simp
  qed
  have new_counts: "pins_in_part ?t e q = length (filter (\<lambda>v. ids v = Some q) (pins h e))"
    if e: "e < initialNumEdges h" "edgeIsEnabled h e" for e q
  proof (cases "e \<in> set (incidentEdges h u)")
    case True
    then have "u \<in> set (pins h e)"
      using inc [OF e] by simp
    from count_reassigned [OF wf_hypergraph_pins(1) [OF wf e] this ids_u other, of q]
    have "length (filter (\<lambda>v. ids v = Some q) (pins h e))
            = length (filter (\<lambda>v. part_ids s v = Some q) (pins h e))
              + (if p = q then 1 else 0)"
      using free by simp
    then show ?thesis
      using True counts [OF e, of q] by (auto simp: t_pins joined_counts_def)
  next
    case False
    then have "u \<notin> set (pins h e)"
      using inc [OF e] by simp
    from filter_reassigned_absent [OF this other] show ?thesis
      using False counts [OF e, of q] by (simp add: t_pins)
  qed
  have new_blocks: "connectivity_set ?t e = {q. q < k \<and> 1 \<le> pins_in_part ?t e q}"
    if e: "e < initialNumEdges h" "edgeIsEnabled h e" for e
    using blocks [OF e] joined_blocks_consistent [OF _ p]
    by (simp add: t_pins t_blocks)
  have new_weights: "part_weights ?t q
      = wrap_int32 (sum_list (map (nodeWeight h) (filter (\<lambda>v. ids v = Some q) [0..<?n])))" for q
  proof -
    from weight_reassigned [OF _ _ ids_u other, of "[0..<?n]" "nodeWeight h" q]
    have "sum_list (map (nodeWeight h) (filter (\<lambda>v. ids v = Some q) [0..<?n]))
          = sum_list (map (nodeWeight h) (filter (\<lambda>v. part_ids s v = Some q) [0..<?n]))
            + (if p = q then nodeWeight h u else 0)"
      using un free by simp
    then show ?thesis
      using weights [of q] by (auto simp: t_weights)
  qed
  show ?thesis
    unfolding partition_invariant_def pinCountInPart_def pcip_pinCountInPart_def
      pinCountInPartRecomputed_def partID_def connectivity_consistent_def
      t_ids t_hg t_k
    using t_own new_ids new_counts new_blocks new_weights by blast
qed

lemma part_ids_fold_edge_joined [simp]:
  "part_ids (fold (\<lambda>e. edge_joined e p) es s) = part_ids s"
  by (induction es arbitrary: s) (simp_all add: edge_joined_fields)

lemma part_ids_setNodePart:
  "part_ids (setNodePart s u p) = (part_ids s)(u := Some p)"
  by (simp add: setNodePart_edges)

subsection \<open>Bulk initialisation in closed form\<close>

text \<open>
  The loops of \<^verbatim>\<open>initializeBlockWeights\<close> and \<^verbatim>\<open>initializePinCountInPart\<close> as updates of
  the tables. When every assigned block is below \<open>k\<close> the thread-local vector of pin
  counts is all zero again after each edge.
\<close>

lemma accumulate_block_weights_closed:
  assumes "\<forall>p. fits_int32 (pws0 p)"
  shows "accumulate_block_weights s us pws0
           = (\<lambda>p. wrap_int32
                     (pws0 p + sum_list (map (nodeWeight (hg s))
                        (filter (\<lambda>u. nodeIsEnabled (hg s) u \<and> part_ids s u = Some p) us))))"
  using assms unfolding accumulate_block_weights_def
proof (induction us arbitrary: pws0)
  case Nil
  then show ?case by (simp add: wrap_int32_id)
next
  case (Cons u us)
  let ?step = "\<lambda>u pws. if nodeIsEnabled (hg s) u
                         then (case partID s u of
                                 Some pu \<Rightarrow> pws(pu := wrap_int32 (pws pu + nodeWeight (hg s) u))
                               | None \<Rightarrow> pws)
                         else pws"
  have fits: "\<forall>p. fits_int32 (?step u pws0 p)"
    using Cons.prems by (auto split: option.splits)
  have "fold ?step (u # us) pws0 = fold ?step us (?step u pws0)"
    by simp
  also have "\<dots> = (\<lambda>p. wrap_int32
                     (?step u pws0 p + sum_list (map (nodeWeight (hg s))
                        (filter (\<lambda>u. nodeIsEnabled (hg s) u \<and> part_ids s u = Some p) us))))"
    by (rule Cons.IH [OF fits])
  also have "\<dots> = (\<lambda>p. wrap_int32
                     (pws0 p + sum_list (map (nodeWeight (hg s))
                        (filter (\<lambda>u. nodeIsEnabled (hg s) u \<and> part_ids s u = Some p) (u # us)))))"
    by (cases "part_ids s u") (auto simp: partID_def fun_eq_iff add.assoc)
  finally show ?case .
qed

lemma applyPartWeightUpdates_fold:
  "distinct ps \<Longrightarrow>
   fold (\<lambda>p s. s\<lparr>part_weights := (part_weights s)(p := wrap_int32 (part_weights s p + d p))\<rparr>)
     ps s
     = s\<lparr>part_weights := (\<lambda>p. if p \<in> set ps then wrap_int32 (part_weights s p + d p)
                               else part_weights s p)\<rparr>"
proof (induction ps arbitrary: s)
  case Nil
  show ?case by simp
next
  case (Cons p ps)
  let ?f = "\<lambda>p s. s\<lparr>part_weights := (part_weights s)(p := wrap_int32 (part_weights s p + d p))\<rparr>"
  let ?s1 = "s\<lparr>part_weights := (part_weights s)(p := wrap_int32 (part_weights s p + d p))\<rparr>"
  have step: "fold ?f (p # ps) s = fold ?f ps ?s1"
    by simp
  have upd: "(\<lambda>q. if q \<in> set ps then wrap_int32 (part_weights ?s1 q + d q)
                   else part_weights ?s1 q)
          = (\<lambda>q. if q \<in> set (p # ps) then wrap_int32 (part_weights s q + d q)
                   else part_weights s q)"
    using Cons.prems by (auto simp: fun_eq_iff)
  have "fold ?f ps ?s1
          = ?s1\<lparr>part_weights :=
                 (\<lambda>q. if q \<in> set (p # ps) then wrap_int32 (part_weights s q + d q)
                      else part_weights s q)\<rparr>"
    using Cons.prems by (simp only: Cons.IH upd distinct.simps)
  also have "\<dots> = s\<lparr>part_weights :=
                 (\<lambda>q. if q \<in> set (p # ps) then wrap_int32 (part_weights s q + d q)
                      else part_weights s q)\<rparr>"
    by simp
  finally show ?case
    unfolding step .
qed

lemma initializeBlockWeights_closed:
  "initializeBlockWeights s
     = s\<lparr>part_weights :=
           (\<lambda>p. if p < k_blocks s
                then wrap_int32
                       (part_weights s p
                        + sum_list (map (nodeWeight (hg s))
                            (filter (\<lambda>u. nodeIsEnabled (hg s) u \<and> part_ids s u = Some p)
                               [0..<initialNumNodes (hg s)])))
                else part_weights s p)\<rparr>"
proof -
  have zero: "\<forall>p. fits_int32 ((\<lambda>_. 0) p)"
    by (simp add: fits_int32_def)
  show ?thesis
    by (simp add: initializeBlockWeights_def applyPartWeightUpdates_def
        applyPartWeightUpdates_fold accumulate_block_weights_closed [OF zero])
qed

lemma count_pins_of_edge_closed:
  "count_pins_of_edge s he c0
     = (\<lambda>b. c0 b + pinCountInPartRecomputed s he b)"
proof -
  have "fold (\<lambda>pin pin_counts. case partID s pin of
                 Some b \<Rightarrow> pin_counts(b := pin_counts b + 1) | None \<Rightarrow> pin_counts) xs c0
          = (\<lambda>b. c0 b + length (filter (\<lambda>u. partID s u = Some b) xs))" for xs
  proof (induction xs arbitrary: c0)
    case Nil
    show ?case by simp
  next
    case (Cons x xs)
    show ?case
      by (cases "partID s x") (auto simp: Cons.IH fun_eq_iff)
  qed
  then show ?thesis
    by (simp add: count_pins_of_edge_def pinCountInPartRecomputed_def)
qed

lemma assign_pin_counts_fold:
  "distinct ps \<Longrightarrow>
   fold (\<lambda>p (s, pin_counts).
           ((if pin_counts p > 0
             then s\<lparr>connectivity_set := cs_add (connectivity_set s) he p,
                    pins_in_part := setPinCountInPart (pins_in_part s) he p (pin_counts p)\<rparr>
             else s),
            pin_counts(p := 0))) ps (s, c)
     = (s\<lparr>connectivity_set :=
             (connectivity_set s)(he := connectivity_set s he \<union> {p \<in> set ps. 0 < c p}),
           pins_in_part :=
             (pins_in_part s)
               (he := (\<lambda>p. if p \<in> set ps \<and> 0 < c p then c p else pins_in_part s he p))\<rparr>,
        \<lambda>p. if p \<in> set ps then 0 else c p)"
proof (induction ps arbitrary: s c)
  case Nil
  show ?case by simp
next
  case (Cons p ps)
  let ?f = "\<lambda>p (s, pin_counts).
           ((if pin_counts p > 0
             then s\<lparr>connectivity_set := cs_add (connectivity_set s) he p,
                    pins_in_part := setPinCountInPart (pins_in_part s) he p (pin_counts p)\<rparr>
             else s),
            pin_counts(p := 0))"
  let ?s1 = "if c p > 0
             then s\<lparr>connectivity_set := cs_add (connectivity_set s) he p,
                    pins_in_part := setPinCountInPart (pins_in_part s) he p (c p)\<rparr>
             else s"
  let ?c1 = "c(p := 0)"
  have step: "fold ?f (p # ps) (s, c) = fold ?f ps (?s1, ?c1)"
    by simp
  have sets: "connectivity_set ?s1 he \<union> {q \<in> set ps. 0 < ?c1 q}
                = connectivity_set s he \<union> {q \<in> set (p # ps). 0 < c q}"
    using Cons.prems by (auto simp: cs_add_def)
  have cnts: "(\<lambda>q. if q \<in> set ps \<and> 0 < ?c1 q then ?c1 q else pins_in_part ?s1 he q)
                = (\<lambda>q. if q \<in> set (p # ps) \<and> 0 < c q then c q else pins_in_part s he q)"
    using Cons.prems by (auto simp: fun_eq_iff setPinCountInPart_def)
  have rest: "(\<lambda>q. if q \<in> set ps then 0 else ?c1 q) = (\<lambda>q. if q \<in> set (p # ps) then 0 else c q)"
    by (auto simp: fun_eq_iff)
  have "fold ?f ps (?s1, ?c1)
          = (?s1\<lparr>connectivity_set :=
                   (connectivity_set ?s1)
                     (he := connectivity_set s he \<union> {q \<in> set (p # ps). 0 < c q}),
                 pins_in_part :=
                   (pins_in_part ?s1)
                     (he := (\<lambda>q. if q \<in> set (p # ps) \<and> 0 < c q then c q
                                  else pins_in_part s he q))\<rparr>,
             \<lambda>q. if q \<in> set (p # ps) then 0 else c q)"
    using Cons.prems by (simp only: Cons.IH sets cnts rest distinct.simps)
  also have "\<dots> = (s\<lparr>connectivity_set :=
                   (connectivity_set s)
                     (he := connectivity_set s he \<union> {q \<in> set (p # ps). 0 < c q}),
                 pins_in_part :=
                   (pins_in_part s)
                     (he := (\<lambda>q. if q \<in> set (p # ps) \<and> 0 < c q then c q
                                  else pins_in_part s he q))\<rparr>,
             \<lambda>q. if q \<in> set (p # ps) then 0 else c q)"
    by (simp add: cs_add_def setPinCountInPart_def)
  finally show ?case
    unfolding step .
qed

definition edge_counted :: "HyperedgeID \<Rightarrow> PartitionedHypergraph \<Rightarrow> PartitionedHypergraph" where
  "edge_counted he s =
     s\<lparr>connectivity_set :=
         (connectivity_set s)
           (he := connectivity_set s he
                  \<union> {p \<in> set [0..<k_blocks s]. 0 < pinCountInPartRecomputed s he p}),
       pins_in_part :=
         (pins_in_part s)
           (he := (\<lambda>p. if p \<in> set [0..<k_blocks s] \<and> 0 < pinCountInPartRecomputed s he p
                       then pinCountInPartRecomputed s he p else pins_in_part s he p))\<rparr>"

definition blocks_bounded :: "PartitionedHypergraph \<Rightarrow> bool" where
  "blocks_bounded s \<longleftrightarrow> (\<forall>u p. part_ids s u = Some p \<longrightarrow> p < k_blocks s)"

lemma recomputed_outside:
  assumes "blocks_bounded s" "\<not> p < k_blocks s"
  shows "pinCountInPartRecomputed s he p = 0"
proof -
  have "filter (\<lambda>u. part_ids s u = Some p) (pins (hg s) he) = []"
    using assms by (auto simp: filter_empty_conv blocks_bounded_def)
  then show ?thesis
    by (simp add: pinCountInPartRecomputed_def partID_def)
qed

lemma edge_counted_kept [simp]:
  "hg (edge_counted he s) = hg s" "k_blocks (edge_counted he s) = k_blocks s"
  "part_ids (edge_counted he s) = part_ids s" "part_weights (edge_counted he s) = part_weights s"
  "pin_count_update_ownership (edge_counted he s) = pin_count_update_ownership s"
  by (simp_all add: edge_counted_def)

lemma blocks_bounded_edge_counted [simp]:
  "blocks_bounded (edge_counted he s) = blocks_bounded s"
  by (simp add: blocks_bounded_def)

lemma recomputed_edge_counted [simp]:
  "pinCountInPartRecomputed (edge_counted he s) = pinCountInPartRecomputed s"
  by (simp add: fun_eq_iff pinCountInPartRecomputed_def partID_def)

lemma assign_counted_edge:
  assumes "blocks_bounded s"
  shows "assign_pin_counts_of_edge he (s, count_pins_of_edge s he (\<lambda>_. 0))
           = (edge_counted he s, \<lambda>_. 0)"
proof -
  let ?c = "pinCountInPartRecomputed s he"
  have c: "count_pins_of_edge s he (\<lambda>_. 0) = ?c"
    by (simp add: count_pins_of_edge_closed)
  have zero: "(\<lambda>p. if p \<in> set [0..<k_blocks s] then 0 else ?c p) = (\<lambda>_. 0)"
    using recomputed_outside [OF assms] by (auto simp: fun_eq_iff)
  have "assign_pin_counts_of_edge he (s, ?c)
          = (s\<lparr>connectivity_set :=
                  (connectivity_set s)
                    (he := connectivity_set s he \<union> {p \<in> set [0..<k_blocks s]. 0 < ?c p}),
                pins_in_part :=
                  (pins_in_part s)
                    (he := (\<lambda>p. if p \<in> set [0..<k_blocks s] \<and> 0 < ?c p then ?c p
                                 else pins_in_part s he p))\<rparr>,
             \<lambda>p. if p \<in> set [0..<k_blocks s] then 0 else ?c p)"
    unfolding assign_pin_counts_of_edge_def fst_conv
    by (rule assign_pin_counts_fold) simp
  then show ?thesis
    unfolding c zero edge_counted_def .
qed

lemma initializePinCountInPart_edges:
  assumes "blocks_bounded s"
  shows "fold (\<lambda>he (s, pin_counts).
                 if edgeIsEnabled (hg s) he
                 then assign_pin_counts_of_edge he (s, count_pins_of_edge s he pin_counts)
                 else (s, pin_counts)) es (s, \<lambda>_. 0)
           = (fold (\<lambda>he s. if edgeIsEnabled (hg s) he then edge_counted he s else s) es s,
              \<lambda>_. 0)"
  using assms
proof (induction es arbitrary: s)
  case Nil
  show ?case by simp
next
  case (Cons he es)
  show ?case
  proof (cases "edgeIsEnabled (hg s) he")
    case True
    have "blocks_bounded (edge_counted he s)"
      using Cons.prems by simp
    from Cons.IH [OF this] show ?thesis
      using True by (simp add: assign_counted_edge [OF Cons.prems])
  next
    case False
    from Cons.IH [OF Cons.prems] show ?thesis
      using False by simp
  qed
qed

lemma fold_edge_counted_kept [simp]:
  "hg (fold (\<lambda>he s. if edgeIsEnabled (hg s) he then edge_counted he s else s) es s) = hg s"
  "k_blocks (fold (\<lambda>he s. if edgeIsEnabled (hg s) he then edge_counted he s else s) es s)
     = k_blocks s"
  "part_ids (fold (\<lambda>he s. if edgeIsEnabled (hg s) he then edge_counted he s else s) es s)
     = part_ids s"
  "part_weights (fold (\<lambda>he s. if edgeIsEnabled (hg s) he then edge_counted he s else s) es s)
     = part_weights s"
  "pin_count_update_ownership
     (fold (\<lambda>he s. if edgeIsEnabled (hg s) he then edge_counted he s else s) es s)
     = pin_count_update_ownership s"
  by (induction es arbitrary: s) simp_all

lemma edge_counted_tables:
  "pins_in_part (edge_counted he s) e p
     = (if e = he \<and> p < k_blocks s \<and> 0 < pinCountInPartRecomputed s e p
        then pinCountInPartRecomputed s e p else pins_in_part s e p)"
  "connectivity_set (edge_counted he s) e
     = (if e = he
        then connectivity_set s e \<union> {p. p < k_blocks s \<and> 0 < pinCountInPartRecomputed s e p}
        else connectivity_set s e)"
  by (simp_all add: edge_counted_def)

lemma fold_edge_counted_pins:
  assumes "distinct es"
  shows "pins_in_part (fold (\<lambda>he s. if edgeIsEnabled (hg s) he then edge_counted he s else s) es s) e p
           = (if e \<in> set es \<and> edgeIsEnabled (hg s) e
                 \<and> p < k_blocks s \<and> 0 < pinCountInPartRecomputed s e p
              then pinCountInPartRecomputed s e p else pins_in_part s e p)"
  using assms
proof (induction es arbitrary: s)
  case Nil
  show ?case by simp
next
  case (Cons he es)
  have d: "distinct es" and fresh: "he \<notin> set es"
    using Cons.prems by simp_all
  show ?case
  proof (cases "edgeIsEnabled (hg s) he")
    case True
    show ?thesis
    proof (cases "e = he")
      case True
      then show ?thesis
        using \<open>edgeIsEnabled (hg s) he\<close> fresh Cons.IH [OF d, of "edge_counted he s"]
        by (simp add: edge_counted_tables)
    next
      case False
      then show ?thesis
        using \<open>edgeIsEnabled (hg s) he\<close> Cons.IH [OF d, of "edge_counted he s"]
        by (simp add: edge_counted_tables)
    qed
  next
    case False
    then show ?thesis
      using Cons.IH [OF d, of s] by auto
  qed
qed

lemma fold_edge_counted_blocks:
  assumes "distinct es"
  shows "connectivity_set
           (fold (\<lambda>he s. if edgeIsEnabled (hg s) he then edge_counted he s else s) es s) e
           = (if e \<in> set es \<and> edgeIsEnabled (hg s) e
              then connectivity_set s e
                   \<union> {p. p < k_blocks s \<and> 0 < pinCountInPartRecomputed s e p}
              else connectivity_set s e)"
  using assms
proof (induction es arbitrary: s)
  case Nil
  show ?case by simp
next
  case (Cons he es)
  have d: "distinct es" and fresh: "he \<notin> set es"
    using Cons.prems by simp_all
  show ?case
  proof (cases "edgeIsEnabled (hg s) he")
    case True
    show ?thesis
    proof (cases "e = he")
      case True
      then show ?thesis
        using \<open>edgeIsEnabled (hg s) he\<close> fresh Cons.IH [OF d, of "edge_counted he s"]
        by (simp add: edge_counted_tables)
    next
      case False
      then show ?thesis
        using \<open>edgeIsEnabled (hg s) he\<close> Cons.IH [OF d, of "edge_counted he s"]
        by (simp add: edge_counted_tables)
    qed
  next
    case False
    then show ?thesis
      using Cons.IH [OF d, of s] by auto
  qed
qed

lemma initializePinCountInPart_closed:
  assumes "blocks_bounded s"
  shows "initializePinCountInPart s
           = fold (\<lambda>he s. if edgeIsEnabled (hg s) he then edge_counted he s else s)
               [0..<initialNumEdges (hg s)] s"
  by (simp add: initializePinCountInPart_def initializePinCountInPart_edges [OF assms])

lemma initializePartition_invariant:
  assumes hg: "hg s = h" and k: "k_blocks s = k" and own: "no_edge_owned s"
    and weights: "part_weights s = (\<lambda>_. 0)"
    and counts: "pins_in_part s = (\<lambda>_ _. 0)"
    and blocks: "connectivity_set s = (\<lambda>_. {})"
    and ids: "\<forall>u p. part_ids s u = Some p \<longrightarrow>
                 u < initialNumNodes h \<and> nodeIsEnabled h u \<and> p < k"
  shows "partition_invariant h k (initializePartition s)"
    and "part_ids (initializePartition s) = part_ids s"
proof -
  define s1 where "s1 = initializeBlockWeights s"
  define t where "t = initializePartition s"
  have s1: "hg s1 = h" "k_blocks s1 = k" "part_ids s1 = part_ids s"
    "pins_in_part s1 = (\<lambda>_ _. 0)" "connectivity_set s1 = (\<lambda>_. {})"
    "pin_count_update_ownership s1 = pin_count_update_ownership s"
    by (simp_all add: s1_def initializeBlockWeights_closed hg k counts blocks)
  have w1: "part_weights s1 p
              = wrap_int32 (sum_list (map (nodeWeight h)
                  (filter (\<lambda>u. part_ids s u = Some p) [0..<initialNumNodes h])))" for p
  proof (cases "p < k")
    case True
    have "filter (\<lambda>u. nodeIsEnabled h u \<and> part_ids s u = Some p) [0..<initialNumNodes h]
            = filter (\<lambda>u. part_ids s u = Some p) [0..<initialNumNodes h]"
      using ids by (intro filter_cong) auto
    then show ?thesis
      using True by (simp add: s1_def initializeBlockWeights_closed hg k weights)
  next
    case False
    have "filter (\<lambda>u. part_ids s u = Some p) [0..<initialNumNodes h] = []"
      using ids False by (auto simp: filter_empty_conv)
    then show ?thesis
      using False by (simp add: s1_def initializeBlockWeights_closed hg k weights)
  qed
  have bounded: "blocks_bounded s1"
    using ids by (auto simp: blocks_bounded_def s1)
  have t: "t = fold (\<lambda>he s. if edgeIsEnabled (hg s) he then edge_counted he s else s)
                 [0..<initialNumEdges h] s1"
    using initializePinCountInPart_closed [OF bounded]
    by (simp add: t_def initializePartition_def s1_def [symmetric] s1)
  have rec: "pinCountInPartRecomputed s1 = pinCountInPartRecomputed s"
    by (simp add: fun_eq_iff pinCountInPartRecomputed_def partID_def s1 hg)
  have t_hg: "hg t = h" and t_k: "k_blocks t = k" and t_ids: "part_ids t = part_ids s"
    and t_own: "no_edge_owned t"
    and t_weights: "part_weights t = part_weights s1"
    using own by (simp_all add: t s1 no_edge_owned_def)
  have rec_t: "pinCountInPartRecomputed t = pinCountInPartRecomputed s"
    by (simp add: fun_eq_iff pinCountInPartRecomputed_def partID_def t_ids t_hg hg)
  have outside: "pinCountInPartRecomputed s e p = 0" if "\<not> p < k" for e p
    using recomputed_outside [OF bounded, of p e] that by (simp add: rec s1)
  have t_counts: "pins_in_part t e p = pinCountInPartRecomputed s e p"
    if "e < initialNumEdges h" "edgeIsEnabled h e" for e p
    using that outside [of p e]
    by (cases "p < k") (auto simp: t fold_edge_counted_pins s1 rec)
  have t_blocks: "connectivity_set t e = {p. p < k \<and> 0 < pinCountInPartRecomputed s e p}"
    if "e < initialNumEdges h" "edgeIsEnabled h e" for e
    using that by (simp add: t fold_edge_counted_blocks s1 rec)
  have "partition_invariant h k t"
    unfolding partition_invariant_def
  proof (intro conjI allI impI)
    show "hg t = h" "k_blocks t = k" "no_edge_owned t"
      by (fact t_hg t_k t_own)+
  next
    fix u p assume "part_ids t u = Some p"
    then show "u < initialNumNodes h" "nodeIsEnabled h u" "p < k"
      using ids by (auto simp: t_ids)
  next
    fix e p assume "e < initialNumEdges h" "edgeIsEnabled h e"
    then show "pinCountInPart t e p = pinCountInPartRecomputed t e p"
      by (simp add: pinCountInPart_def pcip_pinCountInPart_def t_counts rec_t)
  next
    fix e assume e: "e < initialNumEdges h" "edgeIsEnabled h e"
    have "pinCountInPart t e p = pinCountInPartRecomputed s e p" for p
      using e by (simp add: pinCountInPart_def pcip_pinCountInPart_def t_counts)
    then show "connectivity_consistent t e"
      using t_blocks [OF e] by (auto simp: connectivity_consistent_def t_k)
  next
    fix p
    show "part_weights t p
            = wrap_int32 (sum_list (map (nodeWeight h)
                (filter (\<lambda>u. part_ids t u = Some p) [0..<initialNumNodes h])))"
      by (simp add: t_weights w1 t_ids)
  qed
  then show "partition_invariant h k (initializePartition s)"
    by (simp add: t_def)
  show "part_ids (initializePartition s) = part_ids s"
    using t_ids by (simp add: t_def)
qed

subsection \<open>Initial assignments and moves\<close>

lemma fold_setOnlyNodePart:
  "fold (\<lambda>u s. setOnlyNodePart s u (block u)) us s
     = s\<lparr>part_ids := (\<lambda>v. if v \<in> set us then Some (block v) else part_ids s v)\<rparr>"
proof (induction us arbitrary: s)
  case Nil
  show ?case by simp
next
  case (Cons u us)
  have eq: "(\<lambda>v. if v \<in> set us then Some (block v)
                 else ((part_ids s)(u := Some (block u))) v)
              = (\<lambda>v. if v \<in> set (u # us) then Some (block v) else part_ids s v)"
    by (auto simp: fun_eq_iff)
  have "fold (\<lambda>u s. setOnlyNodePart s u (block u)) (u # us) s
          = fold (\<lambda>u s. setOnlyNodePart s u (block u)) us (setOnlyNodePart s u (block u))"
    by simp
  also have "\<dots> = (setOnlyNodePart s u (block u))
                       \<lparr>part_ids := (\<lambda>v. if v \<in> set us then Some (block v)
                                         else part_ids (setOnlyNodePart s u (block u)) v)\<rparr>"
    by (rule Cons.IH)
  also have "\<dots> = s\<lparr>part_ids := (\<lambda>v. if v \<in> set us then Some (block v)
                                      else ((part_ids s)(u := Some (block u))) v)\<rparr>"
    by (simp add: setOnlyNodePart_def cong: if_cong)
  finally show ?case
    unfolding eq .
qed

lemma fold_setNodePart_invariant:
  assumes wf: "wf_hypergraph h"
  shows "distinct us \<Longrightarrow>
         \<forall>u \<in> set us. u < initialNumNodes h \<and> nodeIsEnabled h u \<and> block u < k
                        \<and> part_ids s u = None \<Longrightarrow>
         partition_invariant h k s \<Longrightarrow>
         partition_invariant h k (fold (\<lambda>u s. setNodePart s u (block u)) us s)
         \<and> part_ids (fold (\<lambda>u s. setNodePart s u (block u)) us s)
             = (\<lambda>v. if v \<in> set us then Some (block v) else part_ids s v)"
proof (induction us arbitrary: s)
  case Nil
  then show ?case by simp
next
  case (Cons u us)
  let ?s1 = "setNodePart s u (block u)"
  have u: "u < initialNumNodes h" "nodeIsEnabled h u" "block u < k" "part_ids s u = None"
    using Cons.prems(2) by simp_all
  have inv1: "partition_invariant h k ?s1"
    by (rule setNodePart_preserves_invariant [OF wf Cons.prems(3) u(1) u(2) u(4) u(3)])
  have ids1: "part_ids ?s1 = (part_ids s)(u := Some (block u))"
    by (rule part_ids_setNodePart)
  have d: "distinct us" and fresh: "u \<notin> set us"
    using Cons.prems(1) by simp_all
  have rest: "\<forall>v \<in> set us. v < initialNumNodes h \<and> nodeIsEnabled h v \<and> block v < k
                            \<and> part_ids ?s1 v = None"
    using Cons.prems(2) fresh by (auto simp: ids1)
  from Cons.IH [OF d rest inv1]
  have inv: "partition_invariant h k (fold (\<lambda>u s. setNodePart s u (block u)) us ?s1)"
    and ids: "part_ids (fold (\<lambda>u s. setNodePart s u (block u)) us ?s1)
                = (\<lambda>v. if v \<in> set us then Some (block v) else part_ids ?s1 v)"
    by blast+
  have "(\<lambda>v. if v \<in> set us then Some (block v) else part_ids ?s1 v)
          = (\<lambda>v. if v \<in> set (u # us) then Some (block v) else part_ids s v)"
    by (auto simp: fun_eq_iff ids1)
  with inv ids show ?case
    by simp
qed

lemma part_ids_fold_edge_moved [simp]:
  "part_ids (fold (\<lambda>e. edge_moved e from to) es s) = part_ids s"
  by (induction es arbitrary: s) (simp_all add: edge_moved_fields)

lemma all_assigned_after_move:
  assumes "all_assigned h s"
  shows "all_assigned h (fold (\<lambda>e. edge_moved e from to) es (node_moved u from to s))"
  using assms by (simp add: all_assigned_def node_moved_def)

text \<open>Every element of a list lies in exactly one of the blocks below \<open>k\<close>.\<close>

lemma count_by_block:
  assumes "\<forall>v \<in> set xs. \<exists>p < k. f v = Some p"
  shows "sum_list (map (\<lambda>p. length (filter (\<lambda>v. f v = Some p) xs)) [0..<k]) = length xs"
  using assms
proof (induction xs)
  case Nil
  show ?case by simp
next
  case (Cons x xs)
  from Cons.prems obtain q where q: "q < k" "f x = Some q"
    by auto
  have one: "sum_list (map (\<lambda>p. if q = p then 1 else 0) [0..<k]) = (1::nat)"
    using q(1) by (simp add: interv_sum_list_conv_sum_set_nat)
  have "sum_list (map (\<lambda>p. length (filter (\<lambda>v. f v = Some p) (x # xs))) [0..<k])
          = sum_list (map (\<lambda>p. (if q = p then 1 else 0)
                                 + length (filter (\<lambda>v. f v = Some p) xs)) [0..<k])"
    by (intro arg_cong [where f = sum_list] map_cong) (auto simp: q(2))
  also have "\<dots> = sum_list (map (\<lambda>p. if q = p then 1 else 0) [0..<k])
                    + sum_list (map (\<lambda>p. length (filter (\<lambda>v. f v = Some p) xs)) [0..<k])"
    by (rule sum_list_addf)
  also have "\<dots> = 1 + length xs"
    using Cons.IH Cons.prems by (simp add: one)
  finally show ?case
    by simp
qed

subsection \<open>The invariants of reachable states\<close>

inductive reachable :: "Hypergraph \<Rightarrow> nat \<Rightarrow> PartitionedHypergraph \<Rightarrow> bool"
  for h :: Hypergraph and k :: nat where
  by_setNodePart:
    "distinct us \<Longrightarrow> set us = set (nodes h) \<Longrightarrow> (\<forall>u \<in> set us. block u < k) \<Longrightarrow>
     reachable h k (fold (\<lambda>u s. setNodePart s u (block u)) us (new_PartitionedHypergraph k h))"
| by_initializePartition:
    "distinct us \<Longrightarrow> set us = set (nodes h) \<Longrightarrow> (\<forall>u \<in> set us. block u < k) \<Longrightarrow>
     reachable h k
       (initializePartition
          (fold (\<lambda>u s. setOnlyNodePart s u (block u)) us (new_PartitionedHypergraph k h)))"
| by_changeNodePart:
    "reachable h k s \<Longrightarrow> partID s u = Some from \<Longrightarrow> to < k \<Longrightarrow> from \<noteq> to \<Longrightarrow>
     keeps_partition report_success \<Longrightarrow> delta_keeps_partition delta_func \<Longrightarrow>
     changeNodePart u from to max_weight_to report_success delta_func s = Some (True, s') \<Longrightarrow>
     reachable h k s'"

lemma nodes_iff: "u \<in> set (nodes h) \<longleftrightarrow> u < initialNumNodes h \<and> nodeIsEnabled h u"
  by (auto simp: nodes_def)

lemma reachable_invariant:
  assumes wf: "wf_hypergraph h" and "reachable h k s"
  shows "partition_invariant h k s \<and> all_assigned h s"
  using assms(2)
proof (induction rule: reachable.induct)
  case (by_setNodePart us block)
  let ?s0 = "new_PartitionedHypergraph k h"
  have "\<forall>u \<in> set us. u < initialNumNodes h \<and> nodeIsEnabled h u \<and> block u < k
                       \<and> part_ids ?s0 u = None"
    using by_setNodePart by (simp add: nodes_iff new_PartitionedHypergraph_def)
  from fold_setNodePart_invariant
         [OF wf by_setNodePart(1) this new_PartitionedHypergraph_invariant]
  have inv: "partition_invariant h k (fold (\<lambda>u s. setNodePart s u (block u)) us ?s0)"
    and ids: "part_ids (fold (\<lambda>u s. setNodePart s u (block u)) us ?s0)
                = (\<lambda>v. if v \<in> set us then Some (block v) else part_ids ?s0 v)"
    by blast+
  have "all_assigned h (fold (\<lambda>u s. setNodePart s u (block u)) us ?s0)"
    unfolding all_assigned_def ids using by_setNodePart(2) by (simp add: nodes_iff)
  with inv show ?case
    by blast
next
  case (by_initializePartition us block)
  define s0 where "s0 = fold (\<lambda>u s. setOnlyNodePart s u (block u)) us (new_PartitionedHypergraph k h)"
  have s0: "hg s0 = h" "k_blocks s0 = k" "no_edge_owned s0" "part_weights s0 = (\<lambda>_. 0)"
    "pins_in_part s0 = (\<lambda>_ _. 0)" "connectivity_set s0 = (\<lambda>_. {})"
    and ids0: "part_ids s0 = (\<lambda>v. if v \<in> set us then Some (block v) else None)"
    by (simp_all add: s0_def fold_setOnlyNodePart new_PartitionedHypergraph_def
        no_edge_owned_def cong: if_cong)
  have ids: "\<forall>u p. part_ids s0 u = Some p \<longrightarrow>
               u < initialNumNodes h \<and> nodeIsEnabled h u \<and> p < k"
    using by_initializePartition by (auto simp: ids0 nodes_iff split: if_splits)
  have inv: "partition_invariant h k (initializePartition s0)"
    and same: "part_ids (initializePartition s0) = part_ids s0"
    using initializePartition_invariant [OF s0 ids] by blast+
  have "all_assigned h (initializePartition s0)"
    unfolding all_assigned_def same ids0 using by_initializePartition(2)
    by (simp add: nodes_iff)
  with inv show ?case
    unfolding s0_def by blast
next
  case (by_changeNodePart s u "from" to report_success delta_func max_weight_to s')
  have inv: "partition_invariant h k s" and full: "all_assigned h s"
    using by_changeNodePart.IH by blast+
  have hg: "hg s = h" and own: "no_edge_owned s"
    using inv by (simp_all add: partition_invariant_def)
  have acc: "move_accepted u from to max_weight_to s"
  proof (rule ccontr)
    assume "\<not> move_accepted u from to max_weight_to s"
    from changeNodePart_rejected [OF this, of report_success delta_func]
    show False
      using by_changeNodePart.hyps(7) by auto
  qed
  from changeNodePart_accepted
         [OF acc own by_changeNodePart.hyps(5) by_changeNodePart.hyps(6)]
  have part: "partition_of s'
                = partition_of (fold (\<lambda>e. edge_moved e from to) (incidentEdges h u)
                                  (node_moved u from to s))"
    using by_changeNodePart.hyps(7) by (simp add: hg)
  have u: "part_ids s u = Some from"
    using by_changeNodePart.hyps(2) by (simp add: partID_def)
  have "partition_invariant h k s'"
    using move_preserves_invariant
            [OF wf inv u by_changeNodePart.hyps(3) by_changeNodePart.hyps(4)]
    by (simp add: partition_invariant_cong [OF part])
  moreover have "all_assigned h s'"
    using all_assigned_after_move [OF full, of "from" to "incidentEdges h u" u]
    by (simp add: all_assigned_cong [OF part])
  ultimately show ?case
    by blast
qed

lemma finite_connectivity_set:
  assumes "connectivity_consistent s e"
  shows "set (connectivitySet s e) = connectivity_set s e"
proof -
  have "connectivity_set s e \<subseteq> {..<k_blocks s}"
    using assms by (auto simp: connectivity_consistent_def)
  then have "finite (connectivity_set s e)"
    by (rule finite_subset) simp
  then show ?thesis
    by (simp add: connectivitySet_def cs_connectivitySet_def)
qed

text \<open>
  The node weights fit when none is negative and their sum over the enabled nodes is at
  most \<open>2^31 - 1\<close>; then the sum of the weights of the nodes of a block is a 32-bit value.
\<close>

definition node_weights_fit :: "Hypergraph \<Rightarrow> bool" where
  "node_weights_fit h \<longleftrightarrow>
     list_all (\<lambda>u. 0 \<le> nodeWeight h u) (nodes h)
     \<and> sum_list (map (nodeWeight h) (nodes h)) \<le> 2147483647"

lemma block_weight_fits:
  assumes fit: "node_weights_fit h"
    and ids: "\<forall>u. f u = Some p \<longrightarrow> nodeIsEnabled h u"
  shows "fits_int32 (sum_list (map (nodeWeight h)
                       (filter (\<lambda>v. f v = Some p) [0..<initialNumNodes h])))"
proof -
  have "filter (\<lambda>v. f v = Some p) [0..<initialNumNodes h]
          = filter (\<lambda>v. f v = Some p) (nodes h)"
    unfolding nodes_def filter_filter using ids by (intro filter_cong refl) auto
  moreover from fit have "\<forall>u \<in> set (nodes h). 0 \<le> nodeWeight h u"
    and "sum_list (map (nodeWeight h) (nodes h)) \<le> 2147483647"
    by (simp_all add: node_weights_fit_def list_all_iff)
  ultimately show ?thesis
    using sum_list_filter_bounds [of "nodes h" "nodeWeight h" "\<lambda>v. f v = Some p"]
    unfolding fits_int32_def by simp
qed

lemma invariant_conclusions:
  assumes wf: "wf_hypergraph h" and inv: "partition_invariant h k s"
    and full: "all_assigned h s"
  shows "(\<forall>e < initialNumEdges h. edgeIsEnabled h e \<longrightarrow>
            sum_list (map (pinCountInPart s e) [0..<k]) = edgeSize h e
            \<and> (\<forall>p. p \<in> set (connectivitySet s e) \<longleftrightarrow> 1 \<le> pinCountInPart s e p))
         \<and> (node_weights_fit h \<longrightarrow>
              (\<forall>p. partWeight s p
                     = sum_list (map (nodeWeight h)
                         (filter (\<lambda>v. partID s v = Some p) [0..<initialNumNodes h]))))"
proof (intro conjI allI impI)
  fix e assume e: "e < initialNumEdges h" "edgeIsEnabled h e"
  have hg: "hg s = h" and k: "k_blocks s = k"
    using inv by (simp_all add: partition_invariant_def)
  have counts: "pinCountInPart s e p = length (filter (\<lambda>v. part_ids s v = Some p) (pins h e))"
    for p
    using inv e by (simp add: partition_invariant_def pinCountInPartRecomputed_def partID_def)
  have "\<forall>v \<in> set (pins h e). \<exists>p < k. part_ids s v = Some p"
  proof
    fix v assume "v \<in> set (pins h e)"
    then have "v < initialNumNodes h" "nodeIsEnabled h v"
      using wf_hypergraph_pins [OF wf e] by blast+
    then obtain p where "part_ids s v = Some p"
      using full by (auto simp: all_assigned_def)
    moreover from this have "p < k"
      using inv by (simp add: partition_invariant_def)
    ultimately show "\<exists>p < k. part_ids s v = Some p"
      by blast
  qed
  from count_by_block [OF this]
  have "sum_list (map (\<lambda>p. pinCountInPart s e p) [0..<k]) = length (pins h e)"
    unfolding counts .
  then show "sum_list (map (pinCountInPart s e) [0..<k]) = edgeSize h e"
    by (simp add: edgeSize_def)
  fix p
  have cons: "connectivity_consistent s e"
    using inv e by (simp add: partition_invariant_def)
  have zero: "pinCountInPart s e p = 0" if "\<not> p < k"
  proof -
    have "filter (\<lambda>v. part_ids s v = Some p) (pins h e) = []"
      using inv that by (auto simp: filter_empty_conv partition_invariant_def)
    then show ?thesis
      by (simp add: counts)
  qed
  have blocks: "connectivity_set s e = {p. p < k \<and> 1 \<le> pinCountInPart s e p}"
    using cons unfolding connectivity_consistent_def k .
  show "p \<in> set (connectivitySet s e) \<longleftrightarrow> 1 \<le> pinCountInPart s e p"
  proof (cases "p < k")
    case True
    then show ?thesis
      unfolding finite_connectivity_set [OF cons] blocks by simp
  next
    case False
    with zero [OF False] show ?thesis
      unfolding finite_connectivity_set [OF cons] blocks by simp
  qed
next
  fix p assume fit: "node_weights_fit h"
  have ids: "\<forall>u. part_ids s u = Some p \<longrightarrow> nodeIsEnabled h u"
    using inv by (simp add: partition_invariant_def)
  have "part_weights s p
          = wrap_int32 (sum_list (map (nodeWeight h)
              (filter (\<lambda>v. part_ids s v = Some p) [0..<initialNumNodes h])))"
    using inv by (simp add: partition_invariant_def)
  also have "\<dots> = sum_list (map (nodeWeight h)
              (filter (\<lambda>v. part_ids s v = Some p) [0..<initialNumNodes h]))"
    by (rule wrap_int32_id) (rule block_weight_fits [OF fit ids])
  finally show "partWeight s p
          = sum_list (map (nodeWeight h)
              (filter (\<lambda>v. partID s v = Some p) [0..<initialNumNodes h]))"
    by (simp add: partWeight_def partID_def)
qed

text \<open>
  Claim C3. The hypergraph is well formed and the state is reachable: every enabled node
  was assigned once to a block below \<open>k\<close>, by \<^verbatim>\<open>setNodePart\<close> or by \<^verbatim>\<open>setOnlyNodePart\<close>
  followed by \<^verbatim>\<open>initializePartition\<close>, and then any number of calls of \<^verbatim>\<open>changeNodePart\<close>
  returned true. Then for every enabled edge the pin counts over the \<open>k\<close> blocks sum to
  the size of the edge, and a block is in the connectivity set of the edge iff the edge
  has at least one pin in it. If moreover no node weight is negative and the weights of
  all enabled nodes sum to at most \<open>2^31 - 1\<close>, so that no block weight overflows, the
  weight of every block is the sum of the weights of the nodes assigned to it.
\<close>

theorem reachable_state_invariants:
  assumes wf: "wf_hypergraph h" and reach: "reachable h k s"
  shows "(\<forall>e < initialNumEdges h. edgeIsEnabled h e \<longrightarrow>
            sum_list (map (pinCountInPart s e) [0..<k]) = edgeSize h e
            \<and> (\<forall>p. p \<in> set (connectivitySet s e) \<longleftrightarrow> 1 \<le> pinCountInPart s e p))
         \<and> (node_weights_fit h \<longrightarrow>
              (\<forall>p. partWeight s p
                     = sum_list (map (nodeWeight h)
                         (filter (\<lambda>v. partID s v = Some p) [0..<initialNumNodes h]))))"
proof -
  from reachable_invariant [OF wf reach]
  have "partition_invariant h k s" "all_assigned h s"
    by blast+
  with wf show ?thesis
    by (rule invariant_conclusions)
qed

definition scenario3_start :: PartitionedHypergraph where
  "scenario3_start =
     initializePartition
       (fold (\<lambda>u s. setOnlyNodePart s u (if u = 3 then 1 else 0)) [0, 1, 2, 3]
          (new_PartitionedHypergraph 2 scenario3_hg))"

theorem reachable_state_invariants_witness:
  "wf_hypergraph scenario3_hg \<and> node_weights_fit scenario3_hg
   \<and> reachable scenario3_hg 2 scenario3_start
   \<and> (\<exists>s'. changeNodePart 2 0 1 4 id NOOP_FUNC scenario3_start = Some (True, s')
           \<and> reachable scenario3_hg 2 s'
           \<and> sum_list (map (pinCountInPart s' 0) [0..<2]) = edgeSize scenario3_hg 0
           \<and> (1 \<in> set (connectivitySet s' 0) \<longleftrightarrow> 1 \<le> pinCountInPart s' 0 1)
           \<and> partWeight s' 1
               = sum_list (map (nodeWeight scenario3_hg)
                   (filter (\<lambda>v. partID s' v = Some 1) [0..<initialNumNodes scenario3_hg])))"
proof -
  have upt: "[0..<4] = [0, 1, 2, 3::nat]"
    by code_simp
  have all_nodes: "set [0, 1, 2, 3] = set (nodes scenario3_hg)"
    by (simp add: nodes_def scenario3_hg_def upt)
  have start: "reachable scenario3_hg 2 scenario3_start"
    unfolding scenario3_start_def
    by (rule reachable.by_initializePartition [OF _ all_nodes]) simp_all
  have own: "no_edge_owned scenario3_start"
    using reachable_invariant [OF scenario3_wf start] by (simp add: partition_invariant_def)
  have acc: "move_accepted 2 0 1 4 scenario3_start"
    by code_simp
  have v: "partID scenario3_start 2 = Some 0"
    by code_simp
  from changeNodePart_accepted [OF acc own keeps_partition_id delta_keeps_partition_NOOP]
  obtain s' where res: "changeNodePart 2 0 1 4 id NOOP_FUNC scenario3_start = Some (True, s')"
    by blast
  have to: "(1::nat) < 2" and neq: "(0::nat) \<noteq> 1"
    by simp_all
  have moved: "reachable scenario3_hg 2 s'"
    by (rule reachable.by_changeNodePart
              [OF start v to neq keeps_partition_id delta_keeps_partition_NOOP res])
  have e: "0 < initialNumEdges scenario3_hg" "edgeIsEnabled scenario3_hg 0"
    by (simp_all add: scenario3_hg_def)
  have fit: "node_weights_fit scenario3_hg"
    by code_simp
  from reachable_state_invariants [OF scenario3_wf moved] e fit
  have "sum_list (map (pinCountInPart s' 0) [0..<2]) = edgeSize scenario3_hg 0"
    and "1 \<in> set (connectivitySet s' 0) \<longleftrightarrow> 1 \<le> pinCountInPart s' 0 1"
    and "partWeight s' 1
           = sum_list (map (nodeWeight scenario3_hg)
               (filter (\<lambda>v. partID s' v = Some 1) [0..<initialNumNodes scenario3_hg]))"
    by blast+
  with scenario3_wf fit start res moved show ?thesis
    by blast
qed

section \<open>The gain cache delta update in closed form\<close>

text \<open>
  The three loops of \<open>gainCacheUpdate\<close> as updates of the two tables of the gain cache.
\<close>

lemma add_benefit_of_first_pin_in_closed:
  "add_benefit_of_first_pin_in from we us s
     = (case find (\<lambda>x. partID s x = Some from) us of
          None \<Rightarrow> s
        | Some x \<Rightarrow> s\<lparr>move_from_benefit :=
                        (move_from_benefit s)(x := wrap_int32 (move_from_benefit s x + we))\<rparr>)"
  by (induction us) simp_all

lemma partID_benefit_update [simp]:
  "partID (s\<lparr>move_from_benefit := b\<rparr>) = partID s"
  "partID (s\<lparr>move_to_penalty := q\<rparr>) = partID s"
  by (simp_all add: partID_def fun_eq_iff)

lemma penalty_index_update [simp]:
  "penalty_index (s\<lparr>move_from_benefit := b\<rparr>) = penalty_index s"
  "penalty_index (s\<lparr>move_to_penalty := q\<rparr>) = penalty_index s"
  by (simp_all add: penalty_index_def fun_eq_iff)

lemma sub_benefit_of_pins_in_closed:
  assumes "distinct us"
  shows "sub_benefit_of_pins_in to we us s
           = s\<lparr>move_from_benefit :=
                 (\<lambda>u. if u \<in> set us \<and> partID s u = Some to
                      then wrap_int32 (move_from_benefit s u - we) else move_from_benefit s u)\<rparr>"
  using assms unfolding sub_benefit_of_pins_in_def
proof (induction us arbitrary: s)
  case Nil
  show ?case by simp
next
  case (Cons x xs)
  let ?f = "\<lambda>u s. if partID s u = Some to
                  then s\<lparr>move_from_benefit :=
                          (move_from_benefit s)(u := wrap_int32 (move_from_benefit s u - we))\<rparr>
                  else s"
  have d: "distinct xs" and fresh: "x \<notin> set xs"
    using Cons.prems by simp_all
  have "fold ?f (x # xs) s = fold ?f xs (?f x s)"
    by simp
  also have "\<dots> = (?f x s)\<lparr>move_from_benefit :=
                 (\<lambda>u. if u \<in> set xs \<and> partID (?f x s) u = Some to
                      then wrap_int32 (move_from_benefit (?f x s) u - we)
                      else move_from_benefit (?f x s) u)\<rparr>"
    by (rule Cons.IH [OF d])
  also have "\<dots> = s\<lparr>move_from_benefit :=
                 (\<lambda>u. if u \<in> set (x # xs) \<and> partID s u = Some to
                      then wrap_int32 (move_from_benefit s u - we) else move_from_benefit s u)\<rparr>"
    using fresh by (auto simp: fun_eq_iff intro!: arg_cong [where f = "\<lambda>b. s\<lparr>move_from_benefit := b\<rparr>"])
  finally show ?case .
qed

lemma add_penalty_of_all_pins_closed:
  assumes "distinct us" "0 < k_blocks s"
  shows "add_penalty_of_all_pins p we us s
           = s\<lparr>move_to_penalty :=
                 (\<lambda>i. if i \<in> (\<lambda>u. penalty_index s u p) ` set us
                      then wrap_int32 (move_to_penalty s i + we) else move_to_penalty s i)\<rparr>"
  using assms unfolding add_penalty_of_all_pins_def
proof (induction us arbitrary: s)
  case Nil
  show ?case by simp
next
  case (Cons x xs)
  let ?f = "\<lambda>u s. s\<lparr>move_to_penalty := (move_to_penalty s)
                      (penalty_index s u p :=
                         wrap_int32 (move_to_penalty s (penalty_index s u p) + we))\<rparr>"
  have d: "distinct xs" and fresh: "x \<notin> set xs"
    using Cons.prems by simp_all
  have k: "0 < k_blocks (?f x s)"
    using Cons.prems(2) by simp
  have inj: "penalty_index s u p = penalty_index s u' p \<longleftrightarrow> u = u'" for u u'
    using Cons.prems(2) by (auto simp: penalty_index_def)
  have "fold ?f (x # xs) s = fold ?f xs (?f x s)"
    by simp
  also have "\<dots> = (?f x s)\<lparr>move_to_penalty :=
                 (\<lambda>i. if i \<in> (\<lambda>u. penalty_index (?f x s) u p) ` set xs
                      then wrap_int32 (move_to_penalty (?f x s) i + we)
                      else move_to_penalty (?f x s) i)\<rparr>"
    by (rule Cons.IH [OF d k])
  also have "\<dots> = s\<lparr>move_to_penalty :=
                 (\<lambda>i. if i \<in> (\<lambda>u. penalty_index s u p) ` set (x # xs)
                      then wrap_int32 (move_to_penalty s i + we) else move_to_penalty s i)\<rparr>"
    using fresh inj
    by (auto simp: fun_eq_iff intro!: arg_cong [where f = "\<lambda>b. s\<lparr>move_to_penalty := b\<rparr>"])
  finally show ?case .
qed

lemma add_benefit_of_first_pin_in_kept [simp]:
  "hg (add_benefit_of_first_pin_in from we us s) = hg s"
  "k_blocks (add_benefit_of_first_pin_in from we us s) = k_blocks s"
  "partID (add_benefit_of_first_pin_in from we us s) = partID s"
  "move_to_penalty (add_benefit_of_first_pin_in from we us s) = move_to_penalty s"
  by (simp_all add: add_benefit_of_first_pin_in_closed split: option.splits)

lemma add_penalty_of_all_pins_kept [simp]:
  "hg (add_penalty_of_all_pins p we us s) = hg s"
  "k_blocks (add_penalty_of_all_pins p we us s) = k_blocks s"
  "partID (add_penalty_of_all_pins p we us s) = partID s"
  "move_from_benefit (add_penalty_of_all_pins p we us s) = move_from_benefit s"
  unfolding add_penalty_of_all_pins_def
  by (induction us arbitrary: s; simp)+

lemma sub_benefit_of_pins_in_kept [simp]:
  "hg (sub_benefit_of_pins_in to we us s) = hg s"
  "k_blocks (sub_benefit_of_pins_in to we us s) = k_blocks s"
  "partID (sub_benefit_of_pins_in to we us s) = partID s"
  "move_to_penalty (sub_benefit_of_pins_in to we us s) = move_to_penalty s"
  unfolding sub_benefit_of_pins_in_def
  by (induction us arbitrary: s; simp)+

text \<open>The state between the two halves of \<open>gainCacheUpdate\<close>.\<close>

lemma gainCacheUpdate_halves:
  "gainCacheUpdate he we from c_from to c_to s
     = (let s1 = (if c_from = 1 then add_benefit_of_first_pin_in from we (pins (hg s) he) s
                  else if c_from = 0 then add_penalty_of_all_pins from we (pins (hg s) he) s
                  else s)
        in if c_to = 1 then add_penalty_of_all_pins to (- we) (pins (hg s) he) s1
           else if c_to = 2 then sub_benefit_of_pins_in to we (pins (hg s) he) s1
           else s1)"
  by (simp add: gainCacheUpdate_def Let_def)

lemma benefit_after_from_half:
  "move_from_benefit (if c_from = 1 then add_benefit_of_first_pin_in from we ps s
                      else if c_from = 0 then add_penalty_of_all_pins from we ps s
                      else s) u
     = (if c_from = 1 \<and> find (\<lambda>x. partID s x = Some from) ps = Some u
        then wrap_int32 (move_from_benefit s u + we) else move_from_benefit s u)"
  by (simp add: add_benefit_of_first_pin_in_closed split: option.splits)

text \<open>
  Claim C1, amended: when the pin count of the edge in \<open>to\<close> after the move is 2, the
  update decrements by the edge weight the benefit of every pin of the edge whose block
  is \<open>to\<close> at that moment. The block of the moved node has been set to \<open>to\<close> before
  the edges are updated, so these pins are the moved node and the other pin in \<open>to\<close>.
  The benefit of no other pin is changed by this trigger; the only other benefit that the
  update of the edge changes is that of the first pin in \<open>from\<close>, incremented by the
  trigger \<open>c_from = 1\<close>. The pins of the edge are distinct and \<open>from \<noteq> to\<close>.
\<close>

theorem gainCacheUpdate_decrements_pins_in_to:
  assumes "distinct (pins (hg s) he)" and "from \<noteq> to"
  shows "moveFromBenefit (gainCacheUpdate he we from c_from to 2 s) u
           = (if u \<in> set (pins (hg s) he) \<and> partID s u = Some to
              then wrap_int32 (moveFromBenefit s u - we)
              else if c_from = 1 \<and> find (\<lambda>x. partID s x = Some from) (pins (hg s) he) = Some u
              then wrap_int32 (moveFromBenefit s u + we)
              else moveFromBenefit s u)"
proof -
  let ?ps = "pins (hg s) he"
  define s1 where "s1 = (if c_from = 1 then add_benefit_of_first_pin_in from we ?ps s
                         else if c_from = 0 then add_penalty_of_all_pins from we ?ps s
                         else s)"
  have ids: "partID s1 = partID s"
    by (simp add: s1_def)
  have b1: "move_from_benefit s1 u
              = (if c_from = 1 \<and> find (\<lambda>x. partID s x = Some from) ?ps = Some u
                 then wrap_int32 (move_from_benefit s u + we) else move_from_benefit s u)"
    unfolding s1_def by (rule benefit_after_from_half)
  have run: "gainCacheUpdate he we from c_from to 2 s = sub_benefit_of_pins_in to we ?ps s1"
    by (simp add: gainCacheUpdate_halves s1_def)
  have b2: "move_from_benefit (gainCacheUpdate he we from c_from to 2 s) u
              = (if u \<in> set ?ps \<and> partID s u = Some to
                 then wrap_int32 (move_from_benefit s1 u - we) else move_from_benefit s1 u)"
    unfolding run by (simp add: sub_benefit_of_pins_in_closed [OF assms(1)] ids)
  have other: "move_from_benefit s1 u = move_from_benefit s u" if "partID s u = Some to"
  proof -
    have "find (\<lambda>x. partID s x = Some from) ?ps \<noteq> Some u"
    proof
      assume "find (\<lambda>x. partID s x = Some from) ?ps = Some u"
      then have "partID s u = Some from"
        by (auto simp: find_Some_iff)
      with that assms(2) show False
        by simp
    qed
    then show ?thesis
      by (simp add: b1)
  qed
  show ?thesis
    unfolding moveFromBenefit_def b2 using other b1 by auto
qed

theorem gainCacheUpdate_decrements_pins_in_to_witness:
  "distinct (pins (hg (node_moved 2 0 1 scenario3)) 0) \<and> (0::nat) \<noteq> 1
   \<and> map (partID (node_moved 2 0 1 scenario3)) [0, 1, 2, 3] = [Some 0, Some 0, Some 1, Some 1]
   \<and> map (moveFromBenefit (node_moved 2 0 1 scenario3)) [0, 1, 2, 3] = [0, 0, 0, 1]
   \<and> map (moveFromBenefit (gainCacheUpdate 0 1 0 2 1 2 (node_moved 2 0 1 scenario3)))
        [0, 1, 2, 3] = [0, 0, - 1, 0]"
proof -
  let ?s = "node_moved 2 0 1 scenario3"
  have d: "distinct (pins (hg ?s) 0)"
    by (simp add: node_moved_def scenario3_def scenario3_hg_def)
  have neq: "(0::nat) \<noteq> 1"
    by simp
  have ids: "map (partID ?s) [0, 1, 2, 3] = [Some 0, Some 0, Some 1, Some 1]"
    by code_simp
  have before: "map (moveFromBenefit ?s) [0, 1, 2, 3] = [0, 0, 0, 1]"
    by code_simp
  have ps: "pins (hg ?s) 0 = [0, 1, 2, 3]"
    by (simp add: node_moved_def scenario3_def scenario3_hg_def)
  have "moveFromBenefit (gainCacheUpdate 0 1 0 2 1 2 ?s) u
          = (if u \<in> set [0, 1, 2, 3] \<and> partID ?s u = Some 1
             then wrap_int32 (moveFromBenefit ?s u - 1)
             else if (2::nat) = 1 \<and> find (\<lambda>x. partID ?s x = Some 0) [0, 1, 2, 3] = Some u
             then wrap_int32 (moveFromBenefit ?s u + 1)
             else moveFromBenefit ?s u)" for u
    using gainCacheUpdate_decrements_pins_in_to [OF d neq, of 1 2 u] by (simp only: ps)
  then have "map (moveFromBenefit (gainCacheUpdate 0 1 0 2 1 2 ?s)) [0, 1, 2, 3] = [0, 0, - 1, 0]"
    using ids before by (simp add: wrap_int32_def)
  with d neq ids before show ?thesis
    by blast
qed

section \<open>The effect of a move on the gain cache\<close>

text \<open>
  What \<open>gainCacheUpdate\<close> adds to the benefit of node \<open>u\<close> and to the penalty entry \<open>i\<close>,
  for an edge with the pins \<open>ps\<close>, as a function of the block ids and of the two pin
  counts after the move.
\<close>

definition benefit_delta ::
  "(HypernodeID \<Rightarrow> PartitionID option) \<Rightarrow> HypernodeID list \<Rightarrow> HyperedgeWeight
     \<Rightarrow> PartitionID \<Rightarrow> nat \<Rightarrow> PartitionID \<Rightarrow> nat \<Rightarrow> HypernodeID \<Rightarrow> int" where
  "benefit_delta ids ps we from c_from to c_to u =
     (if c_from = 1 \<and> find (\<lambda>x. ids x = Some from) ps = Some u then we else 0)
     - (if c_to = 2 \<and> u \<in> set ps \<and> ids u = Some to then we else 0)"

definition penalty_delta ::
  "nat \<Rightarrow> HypernodeID list \<Rightarrow> HyperedgeWeight
     \<Rightarrow> PartitionID \<Rightarrow> nat \<Rightarrow> PartitionID \<Rightarrow> nat \<Rightarrow> nat \<Rightarrow> int" where
  "penalty_delta k ps we from c_from to c_to i =
     (if c_from = 0 \<and> i \<in> (\<lambda>u. u * k + from) ` set ps then we else 0)
     - (if c_to = 1 \<and> i \<in> (\<lambda>u. u * k + to) ` set ps then we else 0)"

definition gain_cache_fits :: "PartitionedHypergraph \<Rightarrow> bool" where
  "gain_cache_fits s \<longleftrightarrow>
     (\<forall>u. fits_int32 (move_from_benefit s u)) \<and> (\<forall>i. fits_int32 (move_to_penalty s i))"

lemma gainCacheUpdate_benefit:
  assumes d: "distinct (pins (hg s) he)" and fits: "\<forall>u. fits_int32 (move_from_benefit s u)"
  shows "move_from_benefit (gainCacheUpdate he we from c_from to c_to s) u
           = wrap_int32 (move_from_benefit s u
                         + benefit_delta (partID s) (pins (hg s) he) we from c_from to c_to u)"
proof -
  let ?ps = "pins (hg s) he"
  define s1 where "s1 = (if c_from = 1 then add_benefit_of_first_pin_in from we ?ps s
                         else if c_from = 0 then add_penalty_of_all_pins from we ?ps s
                         else s)"
  have ids: "partID s1 = partID s"
    by (simp add: s1_def)
  have b0: "wrap_int32 (move_from_benefit s u) = move_from_benefit s u"
    using fits by (simp add: wrap_int32_id)
  have b1: "move_from_benefit s1 u
              = (if c_from = 1 \<and> find (\<lambda>x. partID s x = Some from) ?ps = Some u
                 then wrap_int32 (move_from_benefit s u + we) else move_from_benefit s u)"
    unfolding s1_def by (rule benefit_after_from_half)
  have run: "gainCacheUpdate he we from c_from to c_to s
               = (if c_to = 1 then add_penalty_of_all_pins to (- we) ?ps s1
                  else if c_to = 2 then sub_benefit_of_pins_in to we ?ps s1
                  else s1)"
    unfolding gainCacheUpdate_halves s1_def Let_def ..
  have b2: "move_from_benefit (gainCacheUpdate he we from c_from to c_to s) u
              = (if c_to = 2 \<and> u \<in> set ?ps \<and> partID s u = Some to
                 then wrap_int32 (move_from_benefit s1 u - we) else move_from_benefit s1 u)"
    unfolding run by (simp add: sub_benefit_of_pins_in_closed [OF d] ids)
  show ?thesis
    unfolding b2 b1 benefit_delta_def using b0 by (simp add: algebra_simps)
qed

lemma gainCacheUpdate_penalty:
  assumes d: "distinct (pins (hg s) he)" and k: "0 < k_blocks s"
    and fits: "\<forall>i. fits_int32 (move_to_penalty s i)"
  shows "move_to_penalty (gainCacheUpdate he we from c_from to c_to s) i
           = wrap_int32 (move_to_penalty s i
                         + penalty_delta (k_blocks s) (pins (hg s) he) we from c_from to c_to i)"
proof -
  let ?ps = "pins (hg s) he"
  define s1 where "s1 = (if c_from = 1 then add_benefit_of_first_pin_in from we ?ps s
                         else if c_from = 0 then add_penalty_of_all_pins from we ?ps s
                         else s)"
  have k1: "k_blocks s1 = k_blocks s"
    by (simp add: s1_def)
  have p0: "wrap_int32 (move_to_penalty s i) = move_to_penalty s i"
    using fits by (simp add: wrap_int32_id)
  have p1: "move_to_penalty s1 i
              = (if c_from = 0 \<and> i \<in> (\<lambda>u. u * k_blocks s + from) ` set ?ps
                 then wrap_int32 (move_to_penalty s i + we) else move_to_penalty s i)"
    by (simp add: s1_def add_penalty_of_all_pins_closed [OF d k] penalty_index_def)
  have run: "gainCacheUpdate he we from c_from to c_to s
               = (if c_to = 1 then add_penalty_of_all_pins to (- we) ?ps s1
                  else if c_to = 2 then sub_benefit_of_pins_in to we ?ps s1
                  else s1)"
    unfolding gainCacheUpdate_halves s1_def Let_def ..
  have p2: "move_to_penalty (gainCacheUpdate he we from c_from to c_to s) i
              = (if c_to = 1 \<and> i \<in> (\<lambda>u. u * k_blocks s + to) ` set ?ps
                 then wrap_int32 (move_to_penalty s1 i + (- we)) else move_to_penalty s1 i)"
  proof -
    have "0 < k_blocks s1"
      using k by (simp add: k1)
    from add_penalty_of_all_pins_closed [OF d this, of to "- we"]
    show ?thesis
      unfolding run by (simp add: penalty_index_def k1)
  qed
  show ?thesis
    unfolding p2 p1 penalty_delta_def using p0 by (simp add: algebra_simps)
qed

text \<open>
  The callback that \<open>changeNodePartFullUpdate\<close> hands to \<open>changeNodePart\<close> when the
  caller's callback is empty, and what one edge update under it adds to the gain cache:
  the deltas for the pin counts of the edge after the move of one pin from \<open>from\<close> to
  \<open>to\<close>.
\<close>

definition full_update :: "PartitionID \<Rightarrow> PartitionID \<Rightarrow> DeltaFunction" where
  "full_update from to =
     (\<lambda>he edge_weight edge_size pin_count_in_from_part_after pin_count_in_to_part_after s.
        gainCacheUpdate he edge_weight from pin_count_in_from_part_after to
          pin_count_in_to_part_after
          (NOOP_FUNC he edge_weight edge_size pin_count_in_from_part_after
             pin_count_in_to_part_after s))"

definition edge_benefit_delta ::
  "PartitionedHypergraph \<Rightarrow> PartitionID \<Rightarrow> PartitionID \<Rightarrow> HyperedgeID \<Rightarrow> HypernodeID \<Rightarrow> int" where
  "edge_benefit_delta s from to e =
     benefit_delta (part_ids s) (pins (hg s) e) (edgeWeight (hg s) e)
       from (pins_in_part s e from - 1)
       to (((pins_in_part s e)(from := pins_in_part s e from - 1)) to + 1)"

definition edge_penalty_delta ::
  "PartitionedHypergraph \<Rightarrow> PartitionID \<Rightarrow> PartitionID \<Rightarrow> HyperedgeID \<Rightarrow> nat \<Rightarrow> int" where
  "edge_penalty_delta s from to e =
     penalty_delta (k_blocks s) (pins (hg s) e) (edgeWeight (hg s) e)
       from (pins_in_part s e from - 1)
       to (((pins_in_part s e)(from := pins_in_part s e from - 1)) to + 1)"

lemma changeNodePartFullUpdate_full_update:
  "changeNodePartFullUpdate u from to max_weight_to report_success NOOP_FUNC
     = changeNodePart u from to max_weight_to report_success (full_update from to)"
  by (simp add: changeNodePartFullUpdate_def full_update_def fun_eq_iff)

lemma delta_keeps_partition_full: "delta_keeps_partition (full_update from to)"
  unfolding full_update_def
  by (rule delta_keeps_partition_full_update) (rule delta_keeps_partition_NOOP)

lemma edge_delta_cong:
  assumes "partition_of s = partition_of t"
  shows "edge_benefit_delta s from to e = edge_benefit_delta t from to e"
    and "edge_penalty_delta s from to e = edge_penalty_delta t from to e"
  using partition_of_fields [OF assms]
  by (simp_all add: edge_benefit_delta_def edge_penalty_delta_def)

lemma edge_delta_other_edge:
  assumes "e' \<noteq> e"
  shows "edge_benefit_delta (edge_moved e from to s) from to e' = edge_benefit_delta s from to e'"
    and "edge_penalty_delta (edge_moved e from to s) from to e' = edge_penalty_delta s from to e'"
  using assms by (simp_all add: edge_benefit_delta_def edge_penalty_delta_def edge_moved_fields)

lemma gain_cache_fits_wrapped:
  assumes "move_from_benefit t = (\<lambda>u. wrap_int32 (b u))"
    and "move_to_penalty t = (\<lambda>i. wrap_int32 (p i))"
  shows "gain_cache_fits t"
  using assms by (simp add: gain_cache_fits_def)

lemma full_update_free:
  assumes free: "\<not> pin_count_update_ownership s he"
    and d: "distinct (pins (hg s) he)" and k: "0 < k_blocks s" and fits: "gain_cache_fits s"
  shows "\<exists>s'. updatePinCountOfHyperedgeWithoutGainUpdates he from to (full_update from to) s
                 = (True, s')
              \<and> partition_of s' = partition_of (edge_moved he from to s)
              \<and> move_from_benefit s'
                  = (\<lambda>u. wrap_int32 (move_from_benefit s u + edge_benefit_delta s from to he u))
              \<and> move_to_penalty s'
                  = (\<lambda>i. wrap_int32 (move_to_penalty s i + edge_penalty_delta s from to he i))"
proof -
  let ?s1 = "s\<lparr>pin_count_update_ownership := (pin_count_update_ownership s)(he := True)\<rparr>"
  let ?s3 = "edge_moved he from to ?s1"
  let ?cf = "pins_in_part s he from - 1"
  let ?ct = "((pins_in_part s he)(from := pins_in_part s he from - 1)) to + 1"
  let ?s4 = "gainCacheUpdate he (edgeWeight (hg s) he) from ?cf to ?ct ?s3"
  let ?s5 = "?s4\<lparr>pin_count_update_ownership := (pin_count_update_ownership ?s4)(he := False)\<rparr>"
  have s3: "hg ?s3 = hg s" "k_blocks ?s3 = k_blocks s" "partID ?s3 = part_ids s"
    "move_from_benefit ?s3 = move_from_benefit s" "move_to_penalty ?s3 = move_to_penalty s"
    by (simp_all add: edge_moved_fields partID_def fun_eq_iff)
  have run: "updatePinCountOfHyperedgeWithoutGainUpdates he from to (full_update from to) s
               = (True, ?s5)"
    using free
    by (simp add: updatePinCountOfHyperedgeWithoutGainUpdates_def edge_moved_def
        decrement_fields increment_fields Let_def full_update_def NOOP_FUNC_def)
  have part: "partition_of ?s5 = partition_of (edge_moved he from to s)"
  proof -
    have "partition_of ?s4 = partition_of ?s3"
      by simp
    from partition_of_fields [OF this] free show ?thesis
      by (simp add: partition_of_def edge_moved_fields fun_upd_idem)
  qed
  have d3: "distinct (pins (hg ?s3) he)" and k3: "0 < k_blocks ?s3"
    and b3: "\<forall>u. fits_int32 (move_from_benefit ?s3 u)"
    and p3: "\<forall>i. fits_int32 (move_to_penalty ?s3 i)"
    using d k fits by (simp_all add: s3 gain_cache_fits_def)
  have "move_from_benefit ?s4 u
          = wrap_int32 (move_from_benefit s u + edge_benefit_delta s from to he u)" for u
    using gainCacheUpdate_benefit [OF d3 b3, of "edgeWeight (hg s) he" "from" ?cf to ?ct u]
    unfolding s3 edge_benefit_delta_def .
  then have "move_from_benefit ?s5 u
          = wrap_int32 (move_from_benefit s u + edge_benefit_delta s from to he u)" for u
    by simp
  moreover have "move_to_penalty ?s4 i
          = wrap_int32 (move_to_penalty s i + edge_penalty_delta s from to he i)" for i
    using gainCacheUpdate_penalty [OF d3 k3 p3, of "edgeWeight (hg s) he" "from" ?cf to ?ct i]
    unfolding s3 edge_penalty_delta_def .
  then have "move_to_penalty ?s5 i
          = wrap_int32 (move_to_penalty s i + edge_penalty_delta s from to he i)" for i
    by simp
  ultimately show ?thesis
    using run part by (intro exI [of _ ?s5]) (simp add: fun_eq_iff)
qed

lemma full_update_spin:
  assumes free: "\<not> pin_count_update_ownership s he"
    and d: "distinct (pins (hg s) he)" and k: "0 < k_blocks s" and fits: "gain_cache_fits s"
  shows "\<exists>s'. spin_updatePinCountOfHyperedge he from to (full_update from to) s = Some s'
              \<and> partition_of s' = partition_of (edge_moved he from to s)
              \<and> move_from_benefit s'
                  = (\<lambda>u. wrap_int32 (move_from_benefit s u + edge_benefit_delta s from to he u))
              \<and> move_to_penalty s'
                  = (\<lambda>i. wrap_int32 (move_to_penalty s i + edge_penalty_delta s from to he i))"
proof -
  from full_update_free [OF assms, of "from" to] obtain s'
    where run: "updatePinCountOfHyperedgeWithoutGainUpdates he from to (full_update from to) s
                  = (True, s')"
      and rest: "partition_of s' = partition_of (edge_moved he from to s)"
        "move_from_benefit s'
           = (\<lambda>u. wrap_int32 (move_from_benefit s u + edge_benefit_delta s from to he u))"
        "move_to_penalty s'
           = (\<lambda>i. wrap_int32 (move_to_penalty s i + edge_penalty_delta s from to he i))"
    by blast
  have "spin_updatePinCountOfHyperedge he from to (full_update from to) s = Some s'"
    by (subst spin_updatePinCountOfHyperedge.simps) (simp add: run)
  with rest show ?thesis
    by blast
qed

lemma full_update_incident_edges:
  assumes "no_edge_owned s" "distinct es" "\<forall>e \<in> set es. distinct (pins (hg s) e)"
    "0 < k_blocks s" "gain_cache_fits s"
  shows "\<exists>s'. update_incident_edges es from to (full_update from to) s = Some s'
              \<and> partition_of s' = partition_of (fold (\<lambda>e. edge_moved e from to) es s)
              \<and> move_from_benefit s'
                  = (\<lambda>u. wrap_int32
                            (move_from_benefit s u
                             + sum_list (map (\<lambda>e. edge_benefit_delta s from to e u) es)))
              \<and> move_to_penalty s'
                  = (\<lambda>i. wrap_int32
                            (move_to_penalty s i
                             + sum_list (map (\<lambda>e. edge_penalty_delta s from to e i) es)))"
  using assms
proof (induction es arbitrary: s)
  case Nil
  then show ?case
    by (simp add: gain_cache_fits_def wrap_int32_id)
next
  case (Cons e es)
  have free: "\<not> pin_count_update_ownership s e"
    using Cons.prems(1) by (simp add: no_edge_owned_def)
  have d: "distinct (pins (hg s) e)"
    using Cons.prems(3) by simp
  from full_update_spin [OF free d Cons.prems(4,5), of "from" to] obtain s1
    where s1: "spin_updatePinCountOfHyperedge e from to (full_update from to) s = Some s1"
      and p1: "partition_of s1 = partition_of (edge_moved e from to s)"
      and b1: "move_from_benefit s1
                 = (\<lambda>u. wrap_int32 (move_from_benefit s u + edge_benefit_delta s from to e u))"
      and q1: "move_to_penalty s1
                 = (\<lambda>i. wrap_int32 (move_to_penalty s i + edge_penalty_delta s from to e i))"
    by blast
  have own1: "no_edge_owned s1"
    using Cons.prems(1) by (simp add: no_edge_owned_cong [OF p1])
  have hg1: "hg s1 = hg s" and k1: "k_blocks s1 = k_blocks s"
    using partition_of_fields [OF p1] by (simp_all add: edge_moved_fields)
  have des: "distinct es" and fresh: "e \<notin> set es"
    using Cons.prems(2) by simp_all
  have pins1: "\<forall>e \<in> set es. distinct (pins (hg s1) e)"
    using Cons.prems(3) by (simp add: hg1)
  have pos1: "0 < k_blocks s1"
    using Cons.prems(4) by (simp add: k1)
  have fits1: "gain_cache_fits s1"
    using b1 q1 by (rule gain_cache_fits_wrapped)
  from Cons.IH [OF own1 des pins1 pos1 fits1] obtain s'
    where s': "update_incident_edges es from to (full_update from to) s1 = Some s'"
      and p': "partition_of s' = partition_of (fold (\<lambda>e. edge_moved e from to) es s1)"
      and b': "move_from_benefit s'
                 = (\<lambda>u. wrap_int32
                           (move_from_benefit s1 u
                            + sum_list (map (\<lambda>e. edge_benefit_delta s1 from to e u) es)))"
      and q': "move_to_penalty s'
                 = (\<lambda>i. wrap_int32
                           (move_to_penalty s1 i
                            + sum_list (map (\<lambda>e. edge_penalty_delta s1 from to e i) es)))"
    by blast
  have same_b: "edge_benefit_delta s1 from to e' = edge_benefit_delta s from to e'"
    and same_q: "edge_penalty_delta s1 from to e' = edge_penalty_delta s from to e'"
    if "e' \<in> set es" for e'
  proof -
    from that fresh have "e' \<noteq> e"
      by auto
    then show "edge_benefit_delta s1 from to e' = edge_benefit_delta s from to e'"
      and "edge_penalty_delta s1 from to e' = edge_penalty_delta s from to e'"
      by (simp_all add: edge_delta_cong [OF p1] edge_delta_other_edge)
  qed
  have sum_b: "sum_list (map (\<lambda>e. edge_benefit_delta s1 from to e u) es)
                 = sum_list (map (\<lambda>e. edge_benefit_delta s from to e u) es)" for u
    using same_b by (intro arg_cong [where f = sum_list] map_cong refl) simp
  have sum_q: "sum_list (map (\<lambda>e. edge_penalty_delta s1 from to e i) es)
                 = sum_list (map (\<lambda>e. edge_penalty_delta s from to e i) es)" for i
    using same_q by (intro arg_cong [where f = sum_list] map_cong refl) simp
  have run: "update_incident_edges (e # es) from to (full_update from to) s = Some s'"
    by (simp add: s1 s')
  have part: "partition_of s' = partition_of (fold (\<lambda>e. edge_moved e from to) (e # es) s)"
    using p' partition_of_fold_edge_moved_cong [OF p1] by simp
  have benefit: "move_from_benefit s'
                 = (\<lambda>u. wrap_int32
                           (move_from_benefit s u
                            + sum_list (map (\<lambda>e. edge_benefit_delta s from to e u) (e # es))))"
    unfolding b' b1 sum_b by (simp add: add.assoc)
  have penalty: "move_to_penalty s'
                 = (\<lambda>i. wrap_int32
                           (move_to_penalty s i
                            + sum_list (map (\<lambda>e. edge_penalty_delta s from to e i) (e # es))))"
    unfolding q' q1 sum_q by (simp add: add.assoc)
  from run part benefit penalty show ?case
    by blast
qed

text \<open>
  A move with the full update and no callback of the caller's: the result, its partition
  data and its gain cache.
\<close>

lemma changeNodePartFullUpdate_result:
  assumes acc: "move_accepted v from to max_weight_to s"
    and free: "no_edge_owned s"
    and d: "distinct (incidentEdges (hg s) v)"
    and pins: "\<forall>e \<in> set (incidentEdges (hg s) v). distinct (pins (hg s) e)"
    and k: "0 < k_blocks s" and fits: "gain_cache_fits s"
  shows "\<exists>s'. changeNodePartFullUpdate v from to max_weight_to id NOOP_FUNC s = Some (True, s')
              \<and> partition_of s'
                  = partition_of (fold (\<lambda>e. edge_moved e from to) (incidentEdges (hg s) v)
                                    (node_moved v from to s))
              \<and> move_from_benefit s'
                  = (\<lambda>u. wrap_int32
                            (move_from_benefit s u
                             + sum_list (map (\<lambda>e. edge_benefit_delta (node_moved v from to s)
                                                    from to e u)
                                 (incidentEdges (hg s) v))))
              \<and> move_to_penalty s'
                  = (\<lambda>i. wrap_int32
                            (move_to_penalty s i
                             + sum_list (map (\<lambda>e. edge_penalty_delta (node_moved v from to s)
                                                    from to e i)
                                 (incidentEdges (hg s) v))))"
proof -
  let ?m = "node_moved v from to s"
  have m: "hg ?m = hg s" "k_blocks ?m = k_blocks s" "move_from_benefit ?m = move_from_benefit s"
    "move_to_penalty ?m = move_to_penalty s"
    by (simp_all add: node_moved_def)
  have own: "no_edge_owned ?m"
    using free by (simp add: no_edge_owned_def node_moved_def)
  have fits_m: "gain_cache_fits ?m"
    using fits by (simp add: gain_cache_fits_def m)
  from full_update_incident_edges [of ?m "incidentEdges (hg s) v" "from" to] own d pins k fits_m
  obtain s' where run: "update_incident_edges (incidentEdges (hg s) v) from to
                          (full_update from to) ?m = Some s'"
    and rest: "partition_of s'
                 = partition_of (fold (\<lambda>e. edge_moved e from to) (incidentEdges (hg s) v) ?m)"
      "move_from_benefit s'
         = (\<lambda>u. wrap_int32
                   (move_from_benefit ?m u
                    + sum_list (map (\<lambda>e. edge_benefit_delta ?m from to e u)
                        (incidentEdges (hg s) v))))"
      "move_to_penalty s'
         = (\<lambda>i. wrap_int32
                   (move_to_penalty ?m i
                    + sum_list (map (\<lambda>e. edge_penalty_delta ?m from to e i)
                        (incidentEdges (hg s) v))))"
    unfolding m by blast
  have "changeNodePartFullUpdate v from to max_weight_to id NOOP_FUNC s = Some (True, s')"
    using acc run
    by (simp add: changeNodePartFullUpdate_full_update changeNodePart_def move_accepted_def
        Let_def node_moved_def)
  with rest show ?thesis
    unfolding m by blast
qed

subsection \<open>A move and its reverse\<close>

lemma find_unique:
  "length (filter P xs) = 1 \<Longrightarrow> find P xs = Some u \<longleftrightarrow> u \<in> set xs \<and> P u"
proof (induction xs)
  case Nil
  then show ?case by simp
next
  case (Cons x xs)
  show ?case
  proof (cases "P x")
    case True
    with Cons.prems have "filter P xs = []"
      by simp
    then have "\<forall>y \<in> set xs. \<not> P y"
      by (simp add: filter_empty_conv)
    with True show ?thesis
      by auto
  next
    case False
    with Cons show ?thesis
      by auto
  qed
qed

lemma moved_counts_back:
  assumes "from \<noteq> to" "1 \<le> c from"
  shows "moved_counts to from (moved_counts from to c) = c"
  using assms by (auto simp: moved_counts_def fun_eq_iff)

lemma moved_blocks_back:
  assumes S: "S = {p. p < k \<and> 1 \<le> c p}" and fk: "from < k" and tk: "to < k"
    and neq: "from \<noteq> to" and pos: "1 \<le> c from"
  shows "moved_blocks to from (moved_counts from to c) (moved_blocks from to c S) = S"
proof -
  have "moved_blocks from to c S = {p. p < k \<and> 1 \<le> moved_counts from to c p}"
    using S fk tk neq by (rule moved_blocks_consistent)
  from moved_blocks_consistent [OF this tk fk neq [symmetric]]
  show ?thesis
    using moved_counts_back [of "from" to c, OF neq pos] by (simp add: S)
qed

text \<open>
  One edge with the pin \<open>v\<close> in \<open>from\<close>: what the update of the move of \<open>v\<close> to \<open>to\<close>
  and the update of the move back add up to. \<open>cf\<close> and \<open>ct\<close> are the numbers of pins in
  \<open>from\<close> and in \<open>to\<close> before the first move.
\<close>

lemma benefit_delta_round_trip:
  assumes d: "distinct ps" and v: "v \<in> set ps" "ids v = Some from" and neq: "from \<noteq> to"
    and cf: "cf = length (filter (\<lambda>x. ids x = Some from) ps)"
    and ct: "ct = length (filter (\<lambda>x. ids x = Some to) ps)"
  shows "benefit_delta (ids(v := Some to)) ps we from (cf - 1) to (ct + 1) u
           + benefit_delta ids ps we to ct from cf u
         = (if u = v then - (if ct = 1 then we else 0) - (if cf = 2 then we else 0) else 0)"
proof -
  define ids' where "ids' = ids(v := Some to)"
  have ids'_v: "ids' v = Some to" and other: "\<forall>x. x \<noteq> v \<longrightarrow> ids' x = ids x"
    by (simp_all add: ids'_def)
  from count_reassigned [OF d v(1) ids'_v other, of "from"]
  have cf': "length (filter (\<lambda>x. ids' x = Some from) ps) = cf - 1" and cf_pos: "1 \<le> cf"
    using v(2) neq by (simp_all add: cf)
  have first_in_from: "find (\<lambda>x. ids' x = Some from) ps = Some u
                         \<longleftrightarrow> u \<in> set ps \<and> ids' u = Some from" if "cf = 2"
    using find_unique [of "\<lambda>x. ids' x = Some from" ps u] cf' that by simp
  have first_in_to: "find (\<lambda>x. ids x = Some to) ps = Some u
                       \<longleftrightarrow> u \<in> set ps \<and> ids u = Some to" if "ct = 1"
    using find_unique [of "\<lambda>x. ids x = Some to" ps u] ct that by simp
  have c1: "cf - 1 = 1 \<longleftrightarrow> cf = 2" and c2: "ct + 1 = 2 \<longleftrightarrow> ct = 1"
    by auto
  show ?thesis
  proof (cases "u = v")
    case True
    have "ids' v \<noteq> Some from" "ids v \<noteq> Some to"
      using neq v(2) by (simp_all add: ids'_v)
    then show ?thesis
      unfolding benefit_delta_def ids'_def [symmetric] c1 c2
      using True v ids'_v first_in_from first_in_to by auto
  next
    case False
    then have "ids' u = ids u"
      using other by simp
    then show ?thesis
      unfolding benefit_delta_def ids'_def [symmetric] c1 c2
      using False first_in_from first_in_to by auto
  qed
qed

lemma penalty_delta_round_trip:
  assumes "1 \<le> cf"
  shows "penalty_delta k ps we from (cf - 1) to (ct + 1) i + penalty_delta k ps we to ct from cf i
           = 0"
proof -
  have "cf - 1 = 0 \<longleftrightarrow> cf = 1"
    using assms by auto
  then show ?thesis
    by (simp add: penalty_delta_def)
qed

lemma partition_of_node_moved_cong:
  assumes "partition_of s = partition_of t"
  shows "partition_of (node_moved v from to s) = partition_of (node_moved v from to t)"
  using partition_of_fields [OF assms] by (simp add: partition_of_def node_moved_def)

lemma incident_edge_counts:
  assumes wf: "wf_hypergraph h" and inv: "partition_invariant h k s"
    and v: "part_ids s v = Some from" and e: "e \<in> set (incidentEdges h v)"
  shows "distinct (pins h e)" "v \<in> set (pins h e)"
    "pins_in_part s e p = length (filter (\<lambda>x. part_ids s x = Some p) (pins h e))"
    "connectivity_set s e = {p. p < k \<and> 1 \<le> pins_in_part s e p}"
    "1 \<le> pins_in_part s e from"
proof -
  from inv v have vn: "v < initialNumNodes h" and ve: "nodeIsEnabled h v"
    by (simp_all add: partition_invariant_def)
  from wf_hypergraph_incident(2) [OF wf vn ve e]
  have en: "e < initialNumEdges h" "edgeIsEnabled h e"
    by simp_all
  show "distinct (pins h e)"
    by (rule wf_hypergraph_pins(1) [OF wf en])
  show pin: "v \<in> set (pins h e)"
    using wf_hypergraph_incident(3) [OF wf vn ve en] e by simp
  show counts: "pins_in_part s e p = length (filter (\<lambda>x. part_ids s x = Some p) (pins h e))"
    for p
    using inv en
    by (simp add: partition_invariant_def pinCountInPart_def pcip_pinCountInPart_def
        pinCountInPartRecomputed_def partID_def)
  show "connectivity_set s e = {p. p < k \<and> 1 \<le> pins_in_part s e p}"
    using inv en
    by (simp add: partition_invariant_def pinCountInPart_def pcip_pinCountInPart_def
        connectivity_consistent_def)
  show "1 \<le> pins_in_part s e from"
    using pin_in_block_counted [of v "pins h e" "part_ids s" "from", OF pin v]
    by (simp add: counts)
qed

lemma round_trip_partition:
  assumes wf: "wf_hypergraph h" and inv: "partition_invariant h k s"
    and v: "part_ids s v = Some from" and to: "to < k" and neq: "from \<noteq> to"
  shows "partition_of
           (fold (\<lambda>e. edge_moved e to from) (incidentEdges h v)
              (node_moved v to from
                 (fold (\<lambda>e. edge_moved e from to) (incidentEdges h v) (node_moved v from to s))))
         = partition_of s"
proof -
  let ?I = "incidentEdges h v"
  define m1 where "m1 = node_moved v from to s"
  define t1 where "t1 = fold (\<lambda>e. edge_moved e from to) ?I m1"
  define m2 where "m2 = node_moved v to from t1"
  define t2 where "t2 = fold (\<lambda>e. edge_moved e to from) ?I m2"
  define wv where "wv = nodeWeight h v"
  let ?c = "pins_in_part s"
  from inv have hg: "hg s = h" and k: "k_blocks s = k"
    and weights: "\<And>p. wrap_int32 (part_weights s p) = part_weights s p"
    by (simp_all add: partition_invariant_def)
  from inv v have vn: "v < initialNumNodes h" and ve: "nodeIsEnabled h v" and fk: "from < k"
    by (simp_all add: partition_invariant_def)
  note dist = wf_hypergraph_incident(1) [OF wf vn ve]
  have m1: "hg m1 = h" "k_blocks m1 = k" "pins_in_part m1 = ?c"
    "connectivity_set m1 = connectivity_set s"
    "pin_count_update_ownership m1 = pin_count_update_ownership s"
    "part_ids m1 = (part_ids s)(v := Some to)"
    "part_weights m1 = ((part_weights s)(to := wrap_int32 (part_weights s to + wv)))
                         (from := wrap_int32 (part_weights s from - wv))"
    using hg k neq by (simp_all add: m1_def node_moved_def wv_def)
  have t1: "t1 = m1\<lparr>pins_in_part :=
                    (\<lambda>e. if e \<in> set ?I then moved_counts from to (pins_in_part m1 e)
                         else pins_in_part m1 e),
                  connectivity_set :=
                    (\<lambda>e. if e \<in> set ?I
                         then moved_blocks from to (pins_in_part m1 e) (connectivity_set m1 e)
                         else connectivity_set m1 e)\<rparr>"
    unfolding t1_def by (rule fold_edge_moved_fields [OF dist])
  have t1_fields: "hg t1 = h" "k_blocks t1 = k"
    "pin_count_update_ownership t1 = pin_count_update_ownership s"
    "part_ids t1 = (part_ids s)(v := Some to)"
    "part_weights t1 = ((part_weights s)(to := wrap_int32 (part_weights s to + wv)))
                         (from := wrap_int32 (part_weights s from - wv))"
    unfolding t1 by (simp_all add: m1)
  have t1_pins: "pins_in_part t1 e
                   = (if e \<in> set ?I then moved_counts from to (?c e) else ?c e)" for e
    unfolding t1 by (simp add: m1)
  have t1_blocks: "connectivity_set t1 e
                     = (if e \<in> set ?I then moved_blocks from to (?c e) (connectivity_set s e)
                        else connectivity_set s e)" for e
    unfolding t1 by (simp add: m1)
  have w_restored: "((part_weights t1)(from := wrap_int32 (part_weights t1 from + wv)))
                (to := wrap_int32 (((part_weights t1)
                                      (from := wrap_int32 (part_weights t1 from + wv))) to - wv))
              = part_weights s"
    using neq weights [of "from"] weights [of to]
    by (auto simp: t1_fields(5) fun_eq_iff)
  have ids_restored: "(part_ids t1)(v := Some from) = part_ids s"
    using v by (auto simp: t1_fields(4) fun_eq_iff)
  have m2: "hg m2 = h" "k_blocks m2 = k" "pins_in_part m2 = pins_in_part t1"
    "connectivity_set m2 = connectivity_set t1"
    "pin_count_update_ownership m2 = pin_count_update_ownership s"
    "part_ids m2 = part_ids s" "part_weights m2 = part_weights s"
    using w_restored ids_restored by (simp_all add: m2_def node_moved_def t1_fields wv_def)
  have t2: "t2 = m2\<lparr>pins_in_part :=
                    (\<lambda>e. if e \<in> set ?I then moved_counts to from (pins_in_part m2 e)
                         else pins_in_part m2 e),
                  connectivity_set :=
                    (\<lambda>e. if e \<in> set ?I
                         then moved_blocks to from (pins_in_part m2 e) (connectivity_set m2 e)
                         else connectivity_set m2 e)\<rparr>"
    unfolding t2_def by (rule fold_edge_moved_fields [OF dist])
  have t2_pins: "pins_in_part t2 e = ?c e" for e
  proof (cases "e \<in> set ?I")
    case True
    from incident_edge_counts(5) [OF wf inv v True]
    have "moved_counts to from (moved_counts from to (?c e)) = ?c e"
      using neq by (intro moved_counts_back)
    with True show ?thesis
      unfolding t2 by (simp add: m2 t1_pins)
  next
    case False
    then show ?thesis
      unfolding t2 by (simp add: m2 t1_pins)
  qed
  have t2_blocks: "connectivity_set t2 e = connectivity_set s e" for e
  proof (cases "e \<in> set ?I")
    case True
    have "moved_blocks to from (moved_counts from to (?c e))
            (moved_blocks from to (?c e) (connectivity_set s e)) = connectivity_set s e"
      using incident_edge_counts(4) [OF wf inv v True] fk to neq
        incident_edge_counts(5) [OF wf inv v True]
      by (rule moved_blocks_back)
    with True show ?thesis
      unfolding t2 by (simp add: m2 t1_pins t1_blocks)
  next
    case False
    then show ?thesis
      unfolding t2 by (simp add: m2 t1_blocks)
  qed
  have "hg t2 = hg s" "k_blocks t2 = k_blocks s" "part_ids t2 = part_ids s"
    "part_weights t2 = part_weights s"
    "pin_count_update_ownership t2 = pin_count_update_ownership s"
    unfolding t2 by (simp_all add: m2 hg k)
  moreover have "pins_in_part t2 = pins_in_part s"
    using t2_pins by (simp add: fun_eq_iff)
  moreover have "connectivity_set t2 = connectivity_set s"
    using t2_blocks by (simp add: fun_eq_iff)
  ultimately have "partition_of t2 = partition_of s"
    by (simp add: partition_of_def)
  then show ?thesis
    by (simp add: t2_def m2_def t1_def m1_def)
qed

lemma fold_edge_moved_kept [simp]:
  "hg (fold (\<lambda>e. edge_moved e from to) es s) = hg s"
  "k_blocks (fold (\<lambda>e. edge_moved e from to) es s) = k_blocks s"
  "part_weights (fold (\<lambda>e. edge_moved e from to) es s) = part_weights s"
  by (induction es arbitrary: s; simp add: edge_moved_fields)+

lemma fold_edge_moved_pins:
  assumes "distinct es"
  shows "pins_in_part (fold (\<lambda>e. edge_moved e from to) es s) e
           = (if e \<in> set es then moved_counts from to (pins_in_part s e) else pins_in_part s e)"
  unfolding fold_edge_moved_fields [OF assms] by simp

lemma round_trip_edge_deltas:
  assumes wf: "wf_hypergraph h" and inv: "partition_invariant h k s"
    and v: "part_ids s v = Some from" and neq: "from \<noteq> to"
    and e: "e \<in> set (incidentEdges h v)"
    and s1: "partition_of s1
               = partition_of (fold (\<lambda>e. edge_moved e from to) (incidentEdges h v)
                                 (node_moved v from to s))"
  shows "edge_benefit_delta (node_moved v from to s) from to e u
           + edge_benefit_delta (node_moved v to from s1) to from e u
         = (if u = v
            then - (if pins_in_part s e to = 1 then edgeWeight h e else 0)
                 - (if pins_in_part s e from = 2 then edgeWeight h e else 0)
            else 0)"
    and "edge_penalty_delta (node_moved v from to s) from to e i
           + edge_penalty_delta (node_moved v to from s1) to from e i = 0"
proof -
  let ?I = "incidentEdges h v"
  let ?c = "pins_in_part s e"
  define t1 where "t1 = fold (\<lambda>e. edge_moved e from to) ?I (node_moved v from to s)"
  from inv have hg: "hg s = h" and k: "k_blocks s = k"
    by (simp_all add: partition_invariant_def)
  from inv v have vn: "v < initialNumNodes h" and ve: "nodeIsEnabled h v"
    by (simp_all add: partition_invariant_def)
  note dist = wf_hypergraph_incident(1) [OF wf vn ve]
  note edge = incident_edge_counts [OF wf inv v e]
  have m1: "hg (node_moved v from to s) = h" "k_blocks (node_moved v from to s) = k"
    "part_ids (node_moved v from to s) = (part_ids s)(v := Some to)"
    "pins_in_part (node_moved v from to s) = pins_in_part s"
    using hg k by (simp_all add: node_moved_def)
  have t1: "hg t1 = h" "k_blocks t1 = k" "part_ids t1 = (part_ids s)(v := Some to)"
    "pins_in_part t1 e = moved_counts from to ?c"
    using e by (simp_all add: t1_def m1 fold_edge_moved_pins [OF dist])
  have m2: "hg (node_moved v to from t1) = h" "k_blocks (node_moved v to from t1) = k"
    "part_ids (node_moved v to from t1) = part_ids s"
    "pins_in_part (node_moved v to from t1) e = moved_counts from to ?c"
    using v by (auto simp: node_moved_def t1 fun_eq_iff)
  have same: "partition_of (node_moved v to from s1) = partition_of (node_moved v to from t1)"
    using s1 unfolding t1_def by (rule partition_of_node_moved_cong)
  have cf: "moved_counts from to ?c to - 1 = ?c to"
    and ct: "((moved_counts from to ?c)(to := ?c to)) from + 1 = ?c from"
    using neq edge(5) by (simp_all add: moved_counts_def)
  have ct1: "(?c(from := ?c from - 1)) to + 1 = ?c to + 1"
    using neq by simp
  have first_b: "edge_benefit_delta (node_moved v from to s) from to e
                   = benefit_delta ((part_ids s)(v := Some to)) (pins h e) (edgeWeight h e)
                       from (?c from - 1) to (?c to + 1)"
    unfolding edge_benefit_delta_def m1 ct1 ..
  have "edge_benefit_delta (node_moved v to from s1) to from e
          = edge_benefit_delta (node_moved v to from t1) to from e"
    by (rule edge_delta_cong(1) [OF same])
  also have "\<dots> = benefit_delta (part_ids s) (pins h e) (edgeWeight h e)
                        to (?c to) from (?c from)"
    unfolding edge_benefit_delta_def m2 cf ct ..
  finally have second_b: "edge_benefit_delta (node_moved v to from s1) to from e
                    = benefit_delta (part_ids s) (pins h e) (edgeWeight h e)
                        to (?c to) from (?c from)" .
  show "edge_benefit_delta (node_moved v from to s) from to e u
           + edge_benefit_delta (node_moved v to from s1) to from e u
         = (if u = v
            then - (if ?c to = 1 then edgeWeight h e else 0)
                 - (if ?c from = 2 then edgeWeight h e else 0)
            else 0)"
    unfolding first_b second_b
    by (rule benefit_delta_round_trip [OF edge(1) edge(2) v neq edge(3) edge(3)])
  have first_p: "edge_penalty_delta (node_moved v from to s) from to e
                   = penalty_delta k (pins h e) (edgeWeight h e) from (?c from - 1) to (?c to + 1)"
    unfolding edge_penalty_delta_def m1 ct1 ..
  have "edge_penalty_delta (node_moved v to from s1) to from e
          = edge_penalty_delta (node_moved v to from t1) to from e"
    by (rule edge_delta_cong(2) [OF same])
  also have "\<dots> = penalty_delta k (pins h e) (edgeWeight h e) to (?c to) from (?c from)"
    unfolding edge_penalty_delta_def m2 cf ct ..
  finally have second_p: "edge_penalty_delta (node_moved v to from s1) to from e
                    = penalty_delta k (pins h e) (edgeWeight h e) to (?c to) from (?c from)" .
  show "edge_penalty_delta (node_moved v from to s) from to e i
           + edge_penalty_delta (node_moved v to from s1) to from e i = 0"
    unfolding first_p second_p by (rule penalty_delta_round_trip [OF edge(5)])
qed

lemma sum_list_zero_on:
  assumes "\<forall>x \<in> set xs. f x = (0::int)"
  shows "sum_list (map f xs) = 0"
  using assms by (induction xs) simp_all

text \<open>
  Claim C6, amended. The hypergraph is well formed, the partition data satisfy the
  invariant and the gain cache holds 32-bit values; \<open>v\<close> is in block \<open>from\<close>, \<open>to\<close> is
  another block, and the balance tests of the move of \<open>v\<close> to \<open>to\<close> and of the move back
  pass. Then both moves (with the gain cache update and no callback of the caller's)
  return true, and afterwards the block ids, the block weights, the pin counts, the
  connectivity sets, all penalties and the benefit of every node other than \<open>v\<close> have
  the values they had before. The benefit of the moved node \<open>v\<close> has lost the weight of
  every incident edge with exactly one pin in \<open>to\<close>, and of every incident edge with
  exactly two pins in \<open>from\<close>, counted before the first move.
\<close>

theorem round_trip_restores_all_but_moved_benefit:
  assumes wf: "wf_hypergraph (hg s)"
    and inv: "partition_invariant (hg s) (k_blocks s) s"
    and fits: "gain_cache_fits s"
    and v: "partID s v = Some from" and to: "to < k_blocks s" and neq: "from \<noteq> to"
    and first: "move_accepted v from to max_weight_to s"
    and second: "move_accepted v to from max_weight_from (node_moved v from to s)"
  shows "\<exists>s1 s2.
           changeNodePartFullUpdate v from to max_weight_to id NOOP_FUNC s = Some (True, s1)
           \<and> changeNodePartFullUpdate v to from max_weight_from id NOOP_FUNC s1 = Some (True, s2)
           \<and> partID s2 = partID s \<and> partWeight s2 = partWeight s
           \<and> pinCountInPart s2 = pinCountInPart s \<and> connectivitySet s2 = connectivitySet s
           \<and> moveToPenalty s2 = moveToPenalty s
           \<and> (\<forall>u. u \<noteq> v \<longrightarrow> moveFromBenefit s2 u = moveFromBenefit s u)
           \<and> moveFromBenefit s2 v
               = wrap_int32
                   (moveFromBenefit s v
                    - sum_list (map (\<lambda>e. (if pinCountInPart s e to = 1
                                           then edgeWeight (hg s) e else 0)
                                          + (if pinCountInPart s e from = 2
                                             then edgeWeight (hg s) e else 0))
                        (incidentEdges (hg s) v)))"
proof -
  let ?h = "hg s" and ?k = "k_blocks s"
  let ?I = "incidentEdges ?h v"
  let ?m1 = "node_moved v from to s"
  let ?t1 = "fold (\<lambda>e. edge_moved e from to) ?I ?m1"
  have ids_v: "part_ids s v = Some from"
    using v by (simp add: partID_def)
  from inv have own: "no_edge_owned s"
    by (simp add: partition_invariant_def)
  from inv ids_v have vn: "v < initialNumNodes ?h" and ve: "nodeIsEnabled ?h v"
    by (simp_all add: partition_invariant_def)
  note dist = wf_hypergraph_incident(1) [OF wf vn ve]
  have pins: "\<forall>e \<in> set ?I. distinct (pins ?h e)"
    using incident_edge_counts(1) [OF wf inv ids_v] by blast
  have kpos: "0 < ?k"
    using to by simp
  from changeNodePartFullUpdate_result [OF first own dist pins kpos fits] obtain s1
    where run1: "changeNodePartFullUpdate v from to max_weight_to id NOOP_FUNC s = Some (True, s1)"
      and part1: "partition_of s1 = partition_of ?t1"
      and b1: "move_from_benefit s1
                 = (\<lambda>u. wrap_int32
                           (move_from_benefit s u
                            + sum_list (map (\<lambda>e. edge_benefit_delta ?m1 from to e u) ?I)))"
      and q1: "move_to_penalty s1
                 = (\<lambda>i. wrap_int32
                           (move_to_penalty s i
                            + sum_list (map (\<lambda>e. edge_penalty_delta ?m1 from to e i) ?I)))"
    by blast
  have inv1: "partition_invariant ?h ?k s1"
    using move_preserves_invariant [OF wf inv ids_v to neq]
    by (simp add: partition_invariant_cong [OF part1])
  then have own1: "no_edge_owned s1" and hg1: "hg s1 = ?h" and k1: "k_blocks s1 = ?k"
    by (simp_all add: partition_invariant_def)
  have w1: "part_weights s1 = part_weights ?m1"
    using partition_of_fields(3) [OF part1] by simp
  have hgm: "hg ?m1 = ?h"
    by (simp add: node_moved_def)
  have second1: "move_accepted v to from max_weight_from s1"
    using second by (simp add: move_accepted_def w1 hg1 hgm)
  have fits1: "gain_cache_fits s1"
    using b1 q1 by (rule gain_cache_fits_wrapped)
  have dist1: "distinct (incidentEdges (hg s1) v)"
    and pins1: "\<forall>e \<in> set (incidentEdges (hg s1) v). distinct (pins (hg s1) e)"
    and kpos1: "0 < k_blocks s1"
    using dist pins kpos by (simp_all add: hg1 k1)
  let ?m2 = "node_moved v to from s1"
  from changeNodePartFullUpdate_result [OF second1 own1 dist1 pins1 kpos1 fits1] obtain s2
    where run2: "changeNodePartFullUpdate v to from max_weight_from id NOOP_FUNC s1
                   = Some (True, s2)"
      and part2: "partition_of s2 = partition_of (fold (\<lambda>e. edge_moved e to from) ?I ?m2)"
      and b2: "move_from_benefit s2
                 = (\<lambda>u. wrap_int32
                           (move_from_benefit s1 u
                            + sum_list (map (\<lambda>e. edge_benefit_delta ?m2 to from e u) ?I)))"
      and q2: "move_to_penalty s2
                 = (\<lambda>i. wrap_int32
                           (move_to_penalty s1 i
                            + sum_list (map (\<lambda>e. edge_penalty_delta ?m2 to from e i) ?I)))"
    unfolding hg1 by blast
  have "partition_of ?m2 = partition_of (node_moved v to from ?t1)"
    using part1 by (rule partition_of_node_moved_cong)
  then have "partition_of (fold (\<lambda>e. edge_moved e to from) ?I ?m2)
               = partition_of (fold (\<lambda>e. edge_moved e to from) ?I (node_moved v to from ?t1))"
    by (rule partition_of_fold_edge_moved_cong)
  also have "\<dots> = partition_of s"
    by (rule round_trip_partition [OF wf inv ids_v to neq])
  finally have part: "partition_of s2 = partition_of s"
    using part2 by simp
  note same = partition_of_fields [OF part]
  define loss where "loss e = (if pins_in_part s e to = 1 then edgeWeight ?h e else 0)
                               + (if pins_in_part s e from = 2 then edgeWeight ?h e else 0)" for e
  have benefit: "move_from_benefit s2 u
      = wrap_int32 (move_from_benefit s u
                    + sum_list (map (\<lambda>e. edge_benefit_delta ?m1 from to e u
                                          + edge_benefit_delta ?m2 to from e u) ?I))" for u
    unfolding b2 b1 by (simp add: sum_list_addf add.assoc)
  have penalty: "move_to_penalty s2 i
      = wrap_int32 (move_to_penalty s i
                    + sum_list (map (\<lambda>e. edge_penalty_delta ?m1 from to e i
                                          + edge_penalty_delta ?m2 to from e i) ?I))" for i
    unfolding q2 q1 by (simp add: sum_list_addf add.assoc)
  have q_same: "move_to_penalty s2 i = move_to_penalty s i" for i
  proof -
    have "sum_list (map (\<lambda>e. edge_penalty_delta ?m1 from to e i
                            + edge_penalty_delta ?m2 to from e i) ?I) = 0"
      using round_trip_edge_deltas(2) [OF wf inv ids_v neq _ part1]
      by (intro sum_list_zero_on) simp
    then show ?thesis
      using fits by (simp add: penalty gain_cache_fits_def wrap_int32_id)
  qed
  have b_same: "move_from_benefit s2 u = move_from_benefit s u" if "u \<noteq> v" for u
  proof -
    have "sum_list (map (\<lambda>e. edge_benefit_delta ?m1 from to e u
                            + edge_benefit_delta ?m2 to from e u) ?I) = 0"
      using round_trip_edge_deltas(1) [OF wf inv ids_v neq _ part1, of _ u] that
      by (intro sum_list_zero_on) simp
    then show ?thesis
      using fits by (simp add: benefit gain_cache_fits_def wrap_int32_id)
  qed
  have b_moved: "move_from_benefit s2 v
                   = wrap_int32 (move_from_benefit s v - sum_list (map loss ?I))"
  proof -
    have "map (\<lambda>e. edge_benefit_delta ?m1 from to e v + edge_benefit_delta ?m2 to from e v) ?I
            = map (\<lambda>e. - loss e) ?I"
      using round_trip_edge_deltas(1) [OF wf inv ids_v neq _ part1, of _ v]
      by (intro map_cong refl) (simp add: loss_def)
    then have "sum_list (map (\<lambda>e. edge_benefit_delta ?m1 from to e v
                                  + edge_benefit_delta ?m2 to from e v) ?I)
                 = - sum_list (map loss ?I)"
      by (simp only: sum_list_uminus_int)
    then show ?thesis
      unfolding benefit by simp
  qed
  have "partID s2 = partID s" "partWeight s2 = partWeight s"
    "pinCountInPart s2 = pinCountInPart s" "connectivitySet s2 = connectivitySet s"
    by (simp_all add: fun_eq_iff partID_def partWeight_def pinCountInPart_def
        connectivitySet_def same)
  moreover have "moveToPenalty s2 = moveToPenalty s"
    using q_same by (simp add: fun_eq_iff moveToPenalty_def penalty_index_def same)
  moreover have "\<forall>u. u \<noteq> v \<longrightarrow> moveFromBenefit s2 u = moveFromBenefit s u"
    using b_same by (simp add: moveFromBenefit_def)
  moreover have "moveFromBenefit s2 v
                   = wrap_int32
                       (moveFromBenefit s v
                        - sum_list (map (\<lambda>e. (if pinCountInPart s e to = 1
                                               then edgeWeight ?h e else 0)
                                              + (if pinCountInPart s e from = 2
                                                 then edgeWeight ?h e else 0)) ?I))"
    using b_moved
    by (simp add: moveFromBenefit_def pinCountInPart_def pcip_pinCountInPart_def loss_def
        [abs_def])
  ultimately show ?thesis
    using run1 run2 by blast
qed

lemma scenario3_gain_cache_fits: "gain_cache_fits scenario3"
  by (simp add: gain_cache_fits_def scenario3_def fits_int32_def)

theorem round_trip_restores_all_but_moved_benefit_witness:
  "partID scenario3 2 = Some 0 \<and> move_accepted 2 0 1 4 scenario3
   \<and> move_accepted 2 1 0 4 (node_moved 2 0 1 scenario3)
   \<and> map (moveFromBenefit scenario3) [0, 1, 2, 3] = [0, 0, 0, 1]
   \<and> (\<exists>s1 s2.
         changeNodePartFullUpdate 2 0 1 4 id NOOP_FUNC scenario3 = Some (True, s1)
         \<and> changeNodePartFullUpdate 2 1 0 4 id NOOP_FUNC s1 = Some (True, s2)
         \<and> map (partID s2) [0, 1, 2, 3] = [Some 0, Some 0, Some 0, Some 1]
         \<and> map (partWeight s2) [0, 1] = [3, 1]
         \<and> map (pinCountInPart s2 0) [0, 1] = [3, 1]
         \<and> connectivitySet s2 0 = [0, 1]
         \<and> map (\<lambda>u. map (moveToPenalty s2 u) [0, 1]) [0, 1, 2, 3]
             = [[0, 0], [0, 0], [0, 0], [0, 0]]
         \<and> map (moveFromBenefit s2) [0, 1, 3] = [0, 0, 1]
         \<and> moveFromBenefit s2 2 = - 1)"
proof -
  have hg: "hg scenario3 = scenario3_hg" and k: "k_blocks scenario3 = 2"
    by (simp_all add: scenario3_def)
  have wf: "wf_hypergraph (hg scenario3)"
    by (simp add: hg scenario3_wf)
  have inv: "partition_invariant (hg scenario3) (k_blocks scenario3) scenario3"
    by (simp add: hg k scenario3_invariant)
  have v: "partID scenario3 2 = Some 0"
    by code_simp
  have to: "1 < k_blocks scenario3" and neq: "(0::nat) \<noteq> 1"
    by (simp_all add: k)
  have first: "move_accepted 2 0 1 4 scenario3"
    by code_simp
  have second: "move_accepted 2 1 0 4 (node_moved 2 0 1 scenario3)"
    by code_simp
  have vals: "map (partID scenario3) [0, 1, 2, 3] = [Some 0, Some 0, Some 0, Some 1]"
    "map (partWeight scenario3) [0, 1] = [3, 1]"
    "map (pinCountInPart scenario3 0) [0, 1] = [3, 1]"
    "connectivitySet scenario3 0 = [0, 1]"
    "map (\<lambda>u. map (moveToPenalty scenario3 u) [0, 1]) [0, 1, 2, 3]
       = [[0, 0], [0, 0], [0, 0], [0, 0]]"
    "map (moveFromBenefit scenario3) [0, 1, 2, 3] = [0, 0, 0, 1]"
    "wrap_int32
       (moveFromBenefit scenario3 2
        - sum_list (map (\<lambda>e. (if pinCountInPart scenario3 e 1 = 1
                               then edgeWeight (hg scenario3) e else 0)
                              + (if pinCountInPart scenario3 e 0 = 2
                                 then edgeWeight (hg scenario3) e else 0))
            (incidentEdges (hg scenario3) 2))) = - 1"
    by code_simp+
  from round_trip_restores_all_but_moved_benefit
         [OF wf inv scenario3_gain_cache_fits v to neq first second]
  obtain s1 s2
    where run: "changeNodePartFullUpdate 2 0 1 4 id NOOP_FUNC scenario3 = Some (True, s1)"
      "changeNodePartFullUpdate 2 1 0 4 id NOOP_FUNC s1 = Some (True, s2)"
      and same: "partID s2 = partID scenario3" "partWeight s2 = partWeight scenario3"
        "pinCountInPart s2 = pinCountInPart scenario3"
        "connectivitySet s2 = connectivitySet scenario3"
        "moveToPenalty s2 = moveToPenalty scenario3"
      and others: "\<forall>u. u \<noteq> 2 \<longrightarrow> moveFromBenefit s2 u = moveFromBenefit scenario3 u"
      and moved: "moveFromBenefit s2 2
                    = wrap_int32
                        (moveFromBenefit scenario3 2
                         - sum_list (map (\<lambda>e. (if pinCountInPart scenario3 e 1 = 1
                                                then edgeWeight (hg scenario3) e else 0)
                                               + (if pinCountInPart scenario3 e 0 = 2
                                                  then edgeWeight (hg scenario3) e else 0))
                             (incidentEdges (hg scenario3) 2)))"
    by blast
  have "map (moveFromBenefit s2) [0, 1, 3] = [0, 0, 1]"
    using others vals(6) by simp
  moreover have "moveFromBenefit s2 2 = - 1"
    using moved vals(7) by simp
  ultimately have "changeNodePartFullUpdate 2 0 1 4 id NOOP_FUNC scenario3 = Some (True, s1)
         \<and> changeNodePartFullUpdate 2 1 0 4 id NOOP_FUNC s1 = Some (True, s2)
         \<and> map (partID s2) [0, 1, 2, 3] = [Some 0, Some 0, Some 0, Some 1]
         \<and> map (partWeight s2) [0, 1] = [3, 1]
         \<and> map (pinCountInPart s2 0) [0, 1] = [3, 1]
         \<and> connectivitySet s2 0 = [0, 1]
         \<and> map (\<lambda>u. map (moveToPenalty s2 u) [0, 1]) [0, 1, 2, 3]
             = [[0, 0], [0, 0], [0, 0], [0, 0]]
         \<and> map (moveFromBenefit s2) [0, 1, 3] = [0, 0, 1]
         \<and> moveFromBenefit s2 2 = - 1"
    using run vals(1-5) by (simp only: same)
  then have "\<exists>s1 s2.
         changeNodePartFullUpdate 2 0 1 4 id NOOP_FUNC scenario3 = Some (True, s1)
         \<and> changeNodePartFullUpdate 2 1 0 4 id NOOP_FUNC s1 = Some (True, s2)
         \<and> map (partID s2) [0, 1, 2, 3] = [Some 0, Some 0, Some 0, Some 1]
         \<and> map (partWeight s2) [0, 1] = [3, 1]
         \<and> map (pinCountInPart s2 0) [0, 1] = [3, 1]
         \<and> connectivitySet s2 0 = [0, 1]
         \<and> map (\<lambda>u. map (moveToPenalty s2 u) [0, 1]) [0, 1, 2, 3]
             = [[0, 0], [0, 0], [0, 0], [0, 0]]
         \<and> map (moveFromBenefit s2) [0, 1, 3] = [0, 0, 1]
         \<and> moveFromBenefit s2 2 = - 1"
    by (intro exI)
  with v first second vals(6) show ?thesis
    by - (intro conjI; assumption)
qed

end
